theory Spec2Isabelle
  imports
    Main
    "HOL-Library.Char_ord"
    "HOL-Library.Multiset"
    "HOL-Library.List_Lexorder"
    "HOL-Library.Product_Lexorder"
begin

section \<open>The release timeline generator (timeline.py)\<close>

text \<open>
  The program reads a table of release milestones, builds for every version a list of
  bars (label, start date), and prints one chart row for every pair of consecutive bars.
  It does so twice: once hiding the retired versions (\<open>eol = False\<close>, index.html) and
  once showing them (\<open>eol = True\<close>, eol.html).

  The embedding follows \<open>print_row\<close>, \<open>version_key\<close> and \<open>generate_timeline\<close> of
  timeline.py. The fixed HTML prologue and epilogue, the file handling and the
  rendering of a date as JavaScript text (\<open>jsdate\<close>) are left out: a printed row is
  kept as the tuple of the four values its line shows.
\<close>

subsection \<open>Data\<close>

text \<open>
  A \<open>datetime.date\<close> is its (year, month, day); Python compares dates in this
  lexicographic order, as \<open>Product_Lexorder\<close> does for tuples.
\<close>

type_synonym date = "nat \<times> nat \<times> nat"

text \<open>
  The labels of the bars: \<open>"dev"\<close>, the Greek letters alpha and beta, \<open>"rc"\<close>,
  \<open>"stable"\<close>, \<open>"security"\<close>, \<open>"eol"\<close> and \<open>"future"\<close>.
\<close>

datatype label = Dev | Alpha | Beta | Rc | Stable | Security | Eol | Future

type_synonym bar = "label \<times> date"

text \<open>A row of the chart: row label, phase label, start, end.\<close>

type_synonym row = "string \<times> label \<times> date \<times> date"

text \<open>The record of one version (\<open>vdata\<close>): a dict from milestone name to date.\<close>

type_synonym vdata = "string \<rightharpoonup> date"

text \<open>
  The parsed TOML file (\<open>data\<close>): a dict from source name to a dict from version to
  record, as association lists in the order of the file.
\<close>

type_synonym catalog = "(string \<times> (string \<times> vdata) list) list"

datatype error = KeyError | AssertionError | ValueError | IndexError

subsection \<open>print\_row\<close>

text \<open>
  The loop of \<open>print_row\<close> with its variable \<open>prev\<close>; the lines printed to \<open>f\<close> are
  the rows returned.
\<close>

fun print_row_loop :: "string \<Rightarrow> bar option \<Rightarrow> bar list \<Rightarrow> row list" where
  "print_row_loop row_label prev [] = []"
| "print_row_loop row_label prev ((label, start_date) # bars) =
     (case prev of
        None \<Rightarrow> []
      | Some p \<Rightarrow> [(row_label, fst p, snd p, start_date)])
     @ print_row_loop row_label (Some (label, start_date)) bars"

definition print_row :: "string \<Rightarrow> bar list \<Rightarrow> row list" where
  "print_row row_label bars = print_row_loop row_label None bars"

subsection \<open>version\_key and the sorted versions\<close>

text \<open>\<open>str.split(sep)\<close> for a separator of one character.\<close>

fun split_on :: "char \<Rightarrow> string \<Rightarrow> string list" where
  "split_on sep [] = [[]]"
| "split_on sep (c # cs) =
     (if c = sep then [] # split_on sep cs
      else (case split_on sep cs of
              [] \<Rightarrow> [[c]]
            | x # xs \<Rightarrow> (c # x) # xs))"

text \<open>
  Python's \<open>int(x)\<close> on a string of ASCII characters, base ten: white space around
  the number is dropped, a sign may come first, single underscores may stand between
  digits, and more than 4300 digits are refused. Everything else is a ValueError.
  (Python also reads the decimal digits of other scripts; the model refuses every
  character that is not ASCII, so wherever the model returns a number Python returns
  the same number.)
\<close>

definition is_space :: "char \<Rightarrow> bool" where
  "is_space c = (c \<in> set [CHR '' '', CHR 0x09, CHR 0x0A, CHR 0x0B, CHR 0x0C, CHR 0x0D])"

definition is_digit :: "char \<Rightarrow> bool" where
  "is_digit c = (CHR ''0'' \<le> c \<and> c \<le> CHR ''9'')"

definition digit_val :: "char \<Rightarrow> nat" where
  "digit_val c = of_char c - of_char CHR ''0''"

definition strip :: "string \<Rightarrow> string" where
  "strip s = rev (dropWhile is_space (rev (dropWhile is_space s)))"

text \<open>
  The digits after the first one: the value read so far, the number of digits read
  so far, the rest of the text.
\<close>

fun digits_from :: "nat \<Rightarrow> nat \<Rightarrow> string \<Rightarrow> (nat \<times> nat) option" where
  "digits_from acc n [] = Some (acc, n)"
| "digits_from acc n (c # cs) =
     (if c = CHR ''_'' then
        (case cs of
           [] \<Rightarrow> None
         | d # ds \<Rightarrow>
             if is_digit d then digits_from (acc * 10 + digit_val d) (Suc n) ds else None)
      else if is_digit c then digits_from (acc * 10 + digit_val c) (Suc n) cs
      else None)"

definition py_int :: "string \<Rightarrow> error + int" where
  "py_int s =
     (let t = strip s;
          neg = (case t of c # _ \<Rightarrow> c = CHR ''-'' | [] \<Rightarrow> False);
          body = (case t of c # cs \<Rightarrow> if c = CHR ''-'' \<or> c = CHR ''+'' then cs else t | [] \<Rightarrow> t)
      in case body of
           [] \<Rightarrow> Inl ValueError
         | c # cs \<Rightarrow>
             if is_digit c then
               (case digits_from (digit_val c) 1 cs of
                  None \<Rightarrow> Inl ValueError
                | Some (v, n) \<Rightarrow>
                    if n > 4300 then Inl ValueError
                    else Inr (if neg then - int v else int v))
             else Inl ValueError)"

text \<open>The generator inside \<open>tuple(...)\<close>: the first component that fails raises.\<close>

fun int_all :: "string list \<Rightarrow> error + int list" where
  "int_all [] = Inr []"
| "int_all (x # xs) =
     (case py_int x of
        Inl e \<Rightarrow> Inl e
      | Inr i \<Rightarrow> (case int_all xs of Inl e \<Rightarrow> Inl e | Inr is \<Rightarrow> Inr (i # is)))"

definition version_key :: "string \<Rightarrow> error + int list" where
  "version_key version = int_all (split_on CHR ''.'' version)"

text \<open>
  \<open>sorted(versions, key=version_key)\<close>: the key of every element is computed first,
  in the order of the elements, then the elements are sorted by their keys. Python
  compares tuples of integers lexicographically, as \<open>List_Lexorder\<close> does for lists,
  and its sort is stable, as \<open>sort_key\<close> is.
\<close>

fun with_keys :: "string list \<Rightarrow> error + (int list \<times> string) list" where
  "with_keys [] = Inr []"
| "with_keys (v # vs) =
     (case version_key v of
        Inl e \<Rightarrow> Inl e
      | Inr k \<Rightarrow> (case with_keys vs of Inl e \<Rightarrow> Inl e | Inr ks \<Rightarrow> Inr ((k, v) # ks)))"

definition sorted_versions :: "string list \<Rightarrow> error + string list" where
  "sorted_versions vs =
     (case with_keys vs of
        Inl e \<Rightarrow> Inl e
      | Inr ks \<Rightarrow> Inr (map snd (sort_key fst ks)))"

text \<open>
  \<open>frozenset(itertools.chain.from_iterable(data.values()))\<close>: the version strings of
  all sources, each once. Python does not fix the order in which a frozenset is
  iterated; the model takes the order of first occurrence. Only the relative order of
  versions with equal keys depends on it. The theorems about the loops below hold for
  every list of versions, and so for every such order.
\<close>

definition versions_of :: "catalog \<Rightarrow> string list" where
  "versions_of data = remdups (concat (map (\<lambda>(source, table). map fst table) data))"

text \<open>\<open>data.get("upstream", {}).get(version)\<close>\<close>

definition upstream_of :: "catalog \<Rightarrow> string \<rightharpoonup> vdata" where
  "upstream_of data =
     (case map_of data ''upstream'' of
        None \<Rightarrow> Map.empty
      | Some table \<Rightarrow> map_of table)"

subsection \<open>generate\_timeline\<close>

text \<open>\<open>vdata[k]\<close>: a missing key raises KeyError.\<close>

definition getitem :: "vdata \<Rightarrow> string \<Rightarrow> error + date" where
  "getitem vdata k = (case vdata k of None \<Rightarrow> Inl KeyError | Some d \<Rightarrow> Inr d)"

text \<open>
  Line 132: \<open>not eol and "eol" in vdata and vdata["eol"] <= datetime.date.today()\<close>.
  The date of the invocation is the parameter \<open>today\<close>.
\<close>

definition skipped :: "bool \<Rightarrow> date \<Rightarrow> vdata \<Rightarrow> bool" where
  "skipped eol today vdata =
     (\<not> eol \<and> (case vdata ''eol'' of None \<Rightarrow> False | Some e \<Rightarrow> e \<le> today))"

text \<open>
  Lines 134 to 147: the bars of the milestones. The four lookups of line 138 to 141
  raise KeyError when the key is missing, and so does \<open>vdata["last-bugfix"]\<close> in
  line 146, which is read whenever \<open>"eol"\<close> is in the record.
\<close>

definition build_bars :: "vdata \<Rightarrow> error + bar list" where
  "build_bars vdata =
     (let bars0 = (case vdata ''dev'' of None \<Rightarrow> [] | Some d \<Rightarrow> [(Dev, d)]) in
      (case getitem vdata ''alpha1'' of Inl e \<Rightarrow> Inl e | Inr a \<Rightarrow>
      (case getitem vdata ''beta1'' of Inl e \<Rightarrow> Inl e | Inr b \<Rightarrow>
      (case getitem vdata ''rc1'' of Inl e \<Rightarrow> Inl e | Inr r \<Rightarrow>
      (case getitem vdata ''final'' of Inl e \<Rightarrow> Inl e | Inr f \<Rightarrow>
      (let bars1 = bars0 @ [(Alpha, a), (Beta, b), (Rc, r), (Stable, f)];
           bars2 = (case vdata ''last-bugfix'' of
                      None \<Rightarrow> bars1
                    | Some d \<Rightarrow> bars1 @ [(Security, d)])
       in (case vdata ''eol'' of
             None \<Rightarrow> Inr bars2
           | Some e \<Rightarrow>
               (case getitem vdata ''last-bugfix'' of
                  Inl err \<Rightarrow> Inl err
                | Inr lb \<Rightarrow> Inr (if e \<noteq> lb then bars2 @ [(Eol, e)] else bars2)))))))))"

text \<open>
  Lines 148 to 155: the running maximum, or the bar \<open>"future"\<close>. \<open>bars[-1]\<close> raises
  IndexError on an empty list; the assertion raises AssertionError.
\<close>

definition update_max_eol ::
  "vdata \<Rightarrow> date option \<Rightarrow> bar list \<Rightarrow> error + (date option \<times> bar list)" where
  "update_max_eol vdata max_eol bars =
     (case vdata ''eol'' of
        Some e \<Rightarrow>
          (if bars = [] then Inl IndexError
           else (case max_eol of
                   None \<Rightarrow> Inr (Some (snd (last bars)), bars)
                 | Some m \<Rightarrow> Inr (Some (max m (snd (last bars))), bars)))
      | None \<Rightarrow>
          (case max_eol of
             None \<Rightarrow> Inl AssertionError
           | Some m \<Rightarrow> Inr (Some m, bars @ [(Future, m)])))"

text \<open>
  The variables of the first loop: \<open>max_eol\<close> and the \<open>defaultdict(list)\<close>
  \<open>all_rows\<close>, whose value at a key never written is the empty list.
\<close>

record state =
  max_eol :: "date option"
  all_rows :: "string \<Rightarrow> (string \<times> bar list) list"

definition init_state :: state where
  "init_state = \<lparr>max_eol = None, all_rows = (\<lambda>_. [])\<rparr>"

text \<open>The body of the first loop (lines 129 to 156) for one version.\<close>

definition process_version ::
  "bool \<Rightarrow> date \<Rightarrow> (string \<rightharpoonup> vdata) \<Rightarrow> state \<Rightarrow> string \<Rightarrow> error + state" where
  "process_version eol today upstream st version =
     (case upstream version of
        None \<Rightarrow> Inr st
      | Some vdata \<Rightarrow>
          if skipped eol today vdata then Inr st
          else
            (case build_bars vdata of
               Inl e \<Rightarrow> Inl e
             | Inr bars \<Rightarrow>
                 (case update_max_eol vdata (max_eol st) bars of
                    Inl e \<Rightarrow> Inl e
                  | Inr (m, bars') \<Rightarrow>
                      Inr \<lparr>max_eol = m,
                           all_rows = (all_rows st)
                             (version := all_rows st version @ [(version, bars')])\<rparr>)))"

fun first_loop ::
  "bool \<Rightarrow> date \<Rightarrow> (string \<rightharpoonup> vdata) \<Rightarrow> state \<Rightarrow> string list \<Rightarrow> error + state" where
  "first_loop eol today upstream st [] = Inr st"
| "first_loop eol today upstream st (version # versions) =
     (case process_version eol today upstream st version of
        Inl e \<Rightarrow> Inl e
      | Inr st' \<Rightarrow> first_loop eol today upstream st' versions)"

text \<open>The second loop (lines 158 to 160).\<close>

definition second_loop ::
  "(string \<Rightarrow> (string \<times> bar list) list) \<Rightarrow> string list \<Rightarrow> row list" where
  "second_loop rows versions =
     concat (map (\<lambda>version.
       concat (map (\<lambda>(label, bars). print_row label bars) (rows version))) versions)"

text \<open>
  One pass. An error of the first loop aborts it before any row is printed; the result
  of a pass that completes is the list of the rows printed.
\<close>

definition generate_timeline :: "catalog \<Rightarrow> date \<Rightarrow> bool \<Rightarrow> error + row list" where
  "generate_timeline data today eol =
     (case sorted_versions (versions_of data) of
        Inl e \<Rightarrow> Inl e
      | Inr versions \<Rightarrow>
          (case first_loop eol today (upstream_of data) init_state versions of
             Inl e \<Rightarrow> Inl e
           | Inr st \<Rightarrow> Inr (second_loop (all_rows st) versions)))"

text \<open>\<open>main\<close>: the pass without the retired versions, then the pass with them.\<close>

definition main :: "catalog \<Rightarrow> date \<Rightarrow> error + (row list \<times> row list)" where
  "main data today =
     (case generate_timeline data today False of
        Inl e \<Rightarrow> Inl e
      | Inr index_rows \<Rightarrow>
          (case generate_timeline data today True of
             Inl e \<Rightarrow> Inl e
           | Inr eol_rows \<Rightarrow> Inr (index_rows, eol_rows)))"

subsection \<open>Notions used in the statements\<close>

text \<open>
  The \<open>eol\<close> dates of the versions of a list that a pass works on: those with a
  record under \<open>upstream\<close> that is not skipped and has the key \<open>eol\<close>.
\<close>

definition eol_dates :: "bool \<Rightarrow> date \<Rightarrow> (string \<rightharpoonup> vdata) \<Rightarrow> string list \<Rightarrow> date list" where
  "eol_dates eol today upstream versions =
     concat (map (\<lambda>version.
       (case upstream version of
          None \<Rightarrow> []
        | Some vdata \<Rightarrow>
            if skipped eol today vdata then []
            else (case vdata ''eol'' of None \<Rightarrow> [] | Some e \<Rightarrow> [e]))) versions)"

text \<open>The greatest date of a list, unset for the empty list.\<close>

definition maximum :: "date list \<Rightarrow> date option" where
  "maximum ds = (if ds = [] then None else Some (Max (set ds)))"

text \<open>An optional value as a list of at most one element.\<close>

definition opt_list :: "'a option \<Rightarrow> 'a list" where
  "opt_list x = (case x of None \<Rightarrow> [] | Some y \<Rightarrow> [y])"

text \<open>
  The bars of a record as the specification lists them: \<open>dev\<close> if present, the four
  mandatory milestones, \<open>security\<close> if \<open>last-bugfix\<close> is present, then \<open>eol\<close> if it is
  present and differs from \<open>last-bugfix\<close>, or \<open>future\<close> at the running maximum \<open>m\<close>
  if the record has no \<open>eol\<close>. It is compared below with what \<open>build_bars\<close> and
  \<open>update_max_eol\<close> compute.
\<close>

definition bar_sequence :: "vdata \<Rightarrow> date option \<Rightarrow> bar list" where
  "bar_sequence vdata m =
     map (Pair Dev) (opt_list (vdata ''dev''))
     @ map (Pair Alpha) (opt_list (vdata ''alpha1''))
     @ map (Pair Beta) (opt_list (vdata ''beta1''))
     @ map (Pair Rc) (opt_list (vdata ''rc1''))
     @ map (Pair Stable) (opt_list (vdata ''final''))
     @ map (Pair Security) (opt_list (vdata ''last-bugfix''))
     @ (case vdata ''eol'' of
          None \<Rightarrow> map (Pair Future) (opt_list m)
        | Some e \<Rightarrow> if vdata ''last-bugfix'' = Some e then [] else [(Eol, e)])"

text \<open>The key of a version whose key is defined.\<close>

definition key_of :: "string \<Rightarrow> int list" where
  "key_of v = (case version_key v of Inl e \<Rightarrow> [] | Inr k \<Rightarrow> k)"

text \<open>
  The rows that the second loop prints for one version, and the property of
  \<open>all_rows\<close> that every entry stored under a version carries that version as its
  row label.
\<close>

definition rows_of :: "(string \<Rightarrow> (string \<times> bar list) list) \<Rightarrow> string \<Rightarrow> row list" where
  "rows_of R v = concat (map (\<lambda>(label, bars). print_row label bars) (R v))"

definition labelled :: "(string \<Rightarrow> (string \<times> bar list) list) \<Rightarrow> bool" where
  "labelled R \<longleftrightarrow> (\<forall>v. \<forall>e \<in> set (R v). fst e = v)"

subsection \<open>Example inputs\<close>

text \<open>
  Records in the shape of the input file. 2.7 has \<open>eol\<close> equal to \<open>last-bugfix\<close>; 3.0
  has \<open>eol\<close> and no \<open>last-bugfix\<close>; 2.6 has no \<open>alpha1\<close>; 3.9 and 3.10 are the
  records of the example of the specification; 3.10 has no \<open>eol\<close>.
\<close>

definition bars_a :: "bar list" where
  "bars_a = [(Alpha, (2020, 10, 5)), (Beta, (2021, 5, 3)), (Rc, (2021, 8, 2))]"

definition r26 :: vdata where
  "r26 = [''beta1'' \<mapsto> (2008, 6, 18), ''rc1'' \<mapsto> (2008, 9, 12), ''final'' \<mapsto> (2008, 10, 1),
          ''last-bugfix'' \<mapsto> (2010, 8, 24), ''eol'' \<mapsto> (2013, 10, 29)]"

definition r27 :: vdata where
  "r27 = [''alpha1'' \<mapsto> (2009, 12, 5), ''beta1'' \<mapsto> (2010, 4, 10), ''rc1'' \<mapsto> (2010, 6, 6),
          ''final'' \<mapsto> (2010, 7, 3), ''last-bugfix'' \<mapsto> (2020, 1, 1), ''eol'' \<mapsto> (2020, 1, 1)]"

definition r30 :: vdata where
  "r30 = [''alpha1'' \<mapsto> (2007, 8, 31), ''beta1'' \<mapsto> (2008, 6, 18), ''rc1'' \<mapsto> (2008, 9, 17),
          ''final'' \<mapsto> (2008, 12, 3), ''eol'' \<mapsto> (2009, 6, 27)]"

definition r34 :: vdata where
  "r34 = [''alpha1'' \<mapsto> (2013, 8, 3), ''beta1'' \<mapsto> (2013, 11, 24), ''rc1'' \<mapsto> (2014, 2, 10),
          ''final'' \<mapsto> (2014, 3, 16), ''last-bugfix'' \<mapsto> (2017, 8, 9), ''eol'' \<mapsto> (2019, 3, 18)]"

definition r39 :: vdata where
  "r39 = [''dev'' \<mapsto> (2019, 6, 4), ''alpha1'' \<mapsto> (2019, 11, 19), ''beta1'' \<mapsto> (2020, 5, 18),
          ''rc1'' \<mapsto> (2020, 8, 11), ''final'' \<mapsto> (2020, 10, 5),
          ''last-bugfix'' \<mapsto> (2024, 1, 1), ''eol'' \<mapsto> (2025, 6, 1)]"

definition r310 :: vdata where
  "r310 = [''dev'' \<mapsto> (2020, 5, 18), ''alpha1'' \<mapsto> (2020, 10, 5), ''beta1'' \<mapsto> (2021, 5, 3),
           ''rc1'' \<mapsto> (2021, 8, 2), ''final'' \<mapsto> (2021, 10, 4)]"

definition upstream_a :: "string \<rightharpoonup> vdata" where
  "upstream_a = [''2.7'' \<mapsto> r27, ''3.4'' \<mapsto> r34, ''3.10'' \<mapsto> r310]"

definition upstream_b :: "string \<rightharpoonup> vdata" where
  "upstream_b = [''2.6'' \<mapsto> r26, ''3.0'' \<mapsto> r30]"

definition data_a :: catalog where
  "data_a = [(''upstream'', [(''3.10'', r310), (''3.9'', r39), (''3.4'', r34), (''2.7'', r27)]),
             (''gentoo'', [(''3.10'', Map.empty), (''3.11'', Map.empty)])]"

definition data_b :: catalog where
  "data_b = [(''upstream'', [(''2.6'', r26)])]"

definition data_c :: catalog where
  "data_c = [(''upstream'', [(''3.10'', r310), (''3.9'', r39)])]"

section \<open>Properties\<close>

text \<open>The equations that evaluate the examples.\<close>

lemmas example_defs = r27_def r34_def r39_def r310_def upstream_a_def
lemmas loop_defs = process_version_def skipped_def build_bars_def getitem_def update_max_eol_def init_state_def

lemmas sort_defs = generate_timeline_def main_def sorted_versions_def versions_of_def upstream_of_def
  version_key_def py_int_def strip_def is_space_def is_digit_def digit_val_def second_loop_def

subsection \<open>Rows from bars\<close>

lemma print_row_loop_Some:
  "print_row_loop l (Some p) bars = map (\<lambda>(a, b). (l, fst a, snd a, snd b)) (zip (p # bars) bars)"
  by (induction bars arbitrary: p) auto

lemma print_row_zip:
  "print_row l bars = map (\<lambda>(a, b). (l, fst a, snd a, snd b)) (zip bars (tl bars))"
  by (cases bars) (auto simp: print_row_def print_row_loop_Some)

lemma length_print_row: "length (print_row l bars) = length bars - 1"
  by (simp add: print_row_zip)

lemma nth_print_row:
  "Suc i < length bars \<Longrightarrow>
   print_row l bars ! i = (l, fst (bars ! i), snd (bars ! i), snd (bars ! Suc i))"
  by (simp add: print_row_zip nth_tl)

lemma print_row_increasing:
  assumes "sorted_wrt (<) (map snd bars)" and "r \<in> set (print_row l bars)"
  shows "fst (snd (snd r)) < snd (snd (snd r))"
proof -
  from assms(2) obtain i where i: "i < length (print_row l bars)" and r: "r = print_row l bars ! i"
    by (auto simp: in_set_conv_nth)
  from i have lt: "Suc i < length bars" by (simp add: length_print_row)
  with r have r': "r = (l, fst (bars ! i), snd (bars ! i), snd (bars ! Suc i))"
    by (simp add: nth_print_row)
  from assms(1) lt have "map snd bars ! i < map snd bars ! Suc i"
    using sorted_wrt_nth_less [of "(<)" "map snd bars" i "Suc i"] by simp
  with lt r' show ?thesis by simp
qed

text \<open>
  C1: a list of N >= 2 bars gives exactly N - 1 rows, row i carrying the label and the
  date of bar i and ending at the date of bar i + 1; fewer than two bars give no row;
  and when the dates of the bars increase strictly, every row ends after it starts.
\<close>

theorem print_row_pairs:
  "(2 \<le> length bars \<longrightarrow>
      length (print_row row_label bars) = length bars - 1 \<and>
      (\<forall>i. Suc i < length bars \<longrightarrow>
         print_row row_label bars ! i =
           (row_label, fst (bars ! i), snd (bars ! i), snd (bars ! Suc i)))) \<and>
   (length bars < 2 \<longrightarrow> print_row row_label bars = []) \<and>
   (sorted_wrt (<) (map snd bars) \<longrightarrow>
      (\<forall>(rl, lab, start, end) \<in> set (print_row row_label bars). start < end))"
proof (intro conjI impI allI)
  show "length (print_row row_label bars) = length bars - 1"
    by (rule length_print_row)
next
  fix i assume "Suc i < length bars"
  then show "print_row row_label bars ! i =
           (row_label, fst (bars ! i), snd (bars ! i), snd (bars ! Suc i))"
    by (rule nth_print_row)
next
  assume "length bars < 2"
  then have "length (print_row row_label bars) = 0" by (simp add: length_print_row)
  then show "print_row row_label bars = []" by simp
next
  assume s: "sorted_wrt (<) (map snd bars)"
  show "\<forall>(rl, lab, start, end) \<in> set (print_row row_label bars). start < end"
    using print_row_increasing [OF s] by fastforce
qed

theorem print_row_pairs_witness:
  "2 \<le> length bars_a \<and> sorted_wrt (<) (map snd bars_a) \<and>
   length [(Dev, (2020, 5, 19)) :: bar] < 2 \<and>
   print_row ''3.10'' [(Dev, (2020, 5, 19))] = [] \<and>
   length (print_row ''3.10'' bars_a) = 2 \<and>
   print_row ''3.10'' bars_a ! 0 = (''3.10'', Alpha, (2020, 10, 5), (2021, 5, 3)) \<and>
   print_row ''3.10'' bars_a ! 1 = (''3.10'', Beta, (2021, 5, 3), (2021, 8, 2)) \<and>
   (2020, 10, 5) < ((2021, 5, 3) :: date) \<and> (2021, 5, 3) < ((2021, 8, 2) :: date)"
  using print_row_pairs [of bars_a "''3.10''"]
        print_row_pairs [of "[(Dev, (2020, 5, 19))]" "''3.10''"]
  by (simp add: bars_a_def)

subsection \<open>The bars of one version\<close>

lemma build_bars_error: "build_bars vdata = Inl e \<Longrightarrow> e = KeyError"
  by (auto simp: build_bars_def getitem_def Let_def split: option.splits sum.splits if_splits)

lemma build_bars_required:
  "build_bars vdata = Inr bars \<Longrightarrow>
     vdata ''alpha1'' \<noteq> None \<and> vdata ''beta1'' \<noteq> None \<and> vdata ''rc1'' \<noteq> None \<and>
     vdata ''final'' \<noteq> None \<and> (vdata ''eol'' \<noteq> None \<longrightarrow> vdata ''last-bugfix'' \<noteq> None)"
  by (auto simp: build_bars_def getitem_def Let_def split: option.splits sum.splits if_splits)

lemma build_bars_missing:
  "vdata ''alpha1'' = None \<or> vdata ''beta1'' = None \<or> vdata ''rc1'' = None \<or>
   vdata ''final'' = None \<Longrightarrow> build_bars vdata = Inl KeyError"
  by (auto simp: build_bars_def getitem_def Let_def split: option.splits sum.splits if_splits)

lemma build_bars_eol_no_bugfix:
  "vdata ''eol'' = Some e \<Longrightarrow> vdata ''last-bugfix'' = None \<Longrightarrow> build_bars vdata = Inl KeyError"
  by (auto simp: build_bars_def getitem_def Let_def split: option.splits sum.splits if_splits)

lemma build_bars_shape:
  "build_bars vdata = Inr bars \<Longrightarrow>
   \<exists>a b r f. vdata ''alpha1'' = Some a \<and> vdata ''beta1'' = Some b \<and>
     vdata ''rc1'' = Some r \<and> vdata ''final'' = Some f \<and>
     bars = (case vdata ''dev'' of None \<Rightarrow> [] | Some d \<Rightarrow> [(Dev, d)])
          @ [(Alpha, a), (Beta, b), (Rc, r), (Stable, f)]
          @ (case vdata ''last-bugfix'' of None \<Rightarrow> [] | Some d \<Rightarrow> [(Security, d)])
          @ (case vdata ''eol'' of None \<Rightarrow> []
             | Some e \<Rightarrow> if vdata ''last-bugfix'' = Some e then [] else [(Eol, e)])"
  by (auto simp: build_bars_def getitem_def Let_def split: option.splits sum.splits if_splits)

lemma build_bars_last_eol:
  "build_bars vdata = Inr bars \<Longrightarrow> vdata ''eol'' = Some e \<Longrightarrow> bars \<noteq> [] \<and> snd (last bars) = e"
  by (auto simp: build_bars_def getitem_def Let_def split: option.splits sum.splits if_splits)

lemma build_bars_nonempty: "build_bars vdata = Inr bars \<Longrightarrow> bars \<noteq> []"
  by (auto simp: build_bars_def getitem_def Let_def split: option.splits sum.splits if_splits)

subsection \<open>The first loop and the running maximum\<close>

lemma process_version_absent:
  "upstream version = None \<Longrightarrow> process_version eol today upstream st version = Inr st"
  by (simp add: process_version_def)

lemma process_version_skipped:
  "upstream version = Some vdata \<Longrightarrow> skipped eol today vdata \<Longrightarrow>
   process_version eol today upstream st version = Inr st"
  by (simp add: process_version_def)

lemma process_version_kept:
  assumes "upstream version = Some vdata" and "\<not> skipped eol today vdata"
    and "process_version eol today upstream st version = Inr st'"
  shows "\<exists>bars0 bars. build_bars vdata = Inr bars0 \<and>
           update_max_eol vdata (max_eol st) bars0 = Inr (max_eol st', bars) \<and>
           all_rows st' = (all_rows st)(version := all_rows st version @ [(version, bars)])"
  using assms by (auto simp: process_version_def split: sum.splits)

lemma opt_list_simps [simp]: "opt_list None = []" "opt_list (Some x) = [x]"
  by (simp_all add: opt_list_def)

lemma maximum_Nil [simp]: "maximum [] = None"
  by (simp add: maximum_def)

lemma maximum_single [simp]: "maximum [d] = Some d"
  by (simp add: maximum_def)

lemma maximum_pair [simp]: "maximum [m, d] = Some (max m d)"
  by (simp add: maximum_def)

lemma maximum_append:
  "maximum (opt_list (maximum xs) @ ys) = maximum (xs @ ys)"
proof (cases "xs = []")
  case True
  then show ?thesis by simp
next
  case False
  then have "Max (insert (Max (set xs)) (set ys)) = Max (set xs \<union> set ys)"
    by (cases "ys = []") (simp_all add: Max_Un)
  with False show ?thesis by (simp add: maximum_def)
qed

lemma eol_dates_one:
  "eol_dates eol today upstream [version] =
     (case upstream version of
        None \<Rightarrow> []
      | Some vdata \<Rightarrow>
          if skipped eol today vdata then []
          else (case vdata ''eol'' of None \<Rightarrow> [] | Some e \<Rightarrow> [e]))"
  by (simp add: eol_dates_def)

lemma update_max_eol_no_eol:
  "vdata ''eol'' = None \<Longrightarrow> update_max_eol vdata m bars = Inr (m', bars') \<Longrightarrow>
   m' = m \<and> (\<exists>d. m = Some d \<and> bars' = bars @ [(Future, d)])"
  by (cases m) (auto simp: update_max_eol_def)

lemma update_max_eol_eol:
  "vdata ''eol'' = Some e \<Longrightarrow> bars \<noteq> [] \<Longrightarrow> update_max_eol vdata m bars = Inr (m', bars') \<Longrightarrow>
   bars' = bars \<and>
   m' = Some (case m of None \<Rightarrow> snd (last bars) | Some d \<Rightarrow> max d (snd (last bars)))"
  by (cases m) (auto simp: update_max_eol_def)

lemma process_version_max_eol:
  assumes "process_version eol today upstream st version = Inr st'"
  shows "max_eol st' = maximum (opt_list (max_eol st) @ eol_dates eol today upstream [version])"
proof (cases "upstream version")
  case None
  with assms have "st' = st" by (simp add: process_version_def)
  with None show ?thesis
    by (cases "max_eol st") (simp_all add: eol_dates_one)
next
  case (Some vdata)
  show ?thesis
  proof (cases "skipped eol today vdata")
    case True
    with Some assms have "st' = st" by (simp add: process_version_def)
    with Some True show ?thesis
      by (cases "max_eol st") (simp_all add: eol_dates_one)
  next
    case False
    from process_version_kept [OF Some False assms] obtain bars0 bars where
      b: "build_bars vdata = Inr bars0" and
      u: "update_max_eol vdata (max_eol st) bars0 = Inr (max_eol st', bars)"
      by blast
    show ?thesis
    proof (cases "vdata ''eol''")
      case None
      from update_max_eol_no_eol [OF None u] obtain d where
        "max_eol st' = max_eol st" "max_eol st = Some d" by blast
      with None Some False show ?thesis
        by (simp add: eol_dates_one)
    next
      case (Some e)
      from build_bars_last_eol [OF b Some] have ne: "bars0 \<noteq> []" and l: "snd (last bars0) = e"
        by simp_all
      from update_max_eol_eol [OF Some ne u]
      have "max_eol st' = Some (case max_eol st of None \<Rightarrow> snd (last bars0)
                                | Some d \<Rightarrow> max d (snd (last bars0)))"
        by simp
      then have "max_eol st' = Some (case max_eol st of None \<Rightarrow> e | Some d \<Rightarrow> max d e)"
        unfolding l .
      with Some \<open>upstream version = Some vdata\<close> False show ?thesis
        by (cases "max_eol st") (simp_all add: eol_dates_one)
    qed
  qed
qed

lemma eol_dates_Cons:
  "eol_dates eol today upstream (v # vs) = eol_dates eol today upstream [v] @ eol_dates eol today upstream vs"
  by (simp add: eol_dates_def)

lemma first_loop_append:
  "first_loop eol today upstream st (vs @ ws) =
     (case first_loop eol today upstream st vs of
        Inl e \<Rightarrow> Inl e
      | Inr st' \<Rightarrow> first_loop eol today upstream st' ws)"
  by (induction vs arbitrary: st) (auto split: sum.splits)

lemma first_loop_max_eol:
  "first_loop eol today upstream st vs = Inr st' \<Longrightarrow>
   max_eol st' = maximum (opt_list (max_eol st) @ eol_dates eol today upstream vs)"
proof (induction vs arbitrary: st)
  case Nil
  then show ?case by (cases "max_eol st") (simp_all add: eol_dates_def maximum_def opt_list_def)
next
  case (Cons v vs)
  from Cons.prems obtain st1 where
    s1: "process_version eol today upstream st v = Inr st1" and
    s2: "first_loop eol today upstream st1 vs = Inr st'"
    by (auto split: sum.splits)
  have "max_eol st' = maximum (opt_list (max_eol st1) @ eol_dates eol today upstream vs)"
    by (rule Cons.IH [OF s2])
  also have "max_eol st1 = maximum (opt_list (max_eol st) @ eol_dates eol today upstream [v])"
    by (rule process_version_max_eol [OF s1])
  finally show ?case
    by (simp add: maximum_append eol_dates_Cons [of _ _ _ v vs])
qed

text \<open>
  C2: \<open>max_eol\<close> is unset when a pass starts; after every prefix of the versions of
  a pass it is the greatest \<open>eol\<close> date of the versions worked on so far that have
  one (none: unset); a version without \<open>eol\<close> leaves it as it is; and the date of the
  last bar of a version with \<open>eol\<close>, which is what the code reads, is that \<open>eol\<close>
  date.
\<close>

theorem max_eol_running_maximum:
  "max_eol init_state = None \<and>
   (first_loop eol today upstream init_state (vs @ ws) = Inr final \<longrightarrow>
      (\<exists>st. first_loop eol today upstream init_state vs = Inr st \<and>
            max_eol st = maximum (eol_dates eol today upstream vs))) \<and>
   (upstream v = Some vdata \<and> vdata ''eol'' = None \<and>
    process_version eol today upstream st v = Inr st' \<longrightarrow> max_eol st' = max_eol st) \<and>
   (build_bars vdata' = Inr bars \<and> vdata' ''eol'' = Some e \<longrightarrow> bars \<noteq> [] \<and> snd (last bars) = e)"
proof (intro conjI impI)
  show "max_eol init_state = None" by (simp add: init_state_def)
next
  assume "first_loop eol today upstream init_state (vs @ ws) = Inr final"
  then obtain st where st: "first_loop eol today upstream init_state vs = Inr st"
    by (auto simp: first_loop_append split: sum.splits)
  from first_loop_max_eol [OF st] have "max_eol st = maximum (eol_dates eol today upstream vs)"
    by (simp add: init_state_def)
  with st show "\<exists>st. first_loop eol today upstream init_state vs = Inr st \<and>
            max_eol st = maximum (eol_dates eol today upstream vs)" by blast
next
  assume a: "upstream v = Some vdata \<and> vdata ''eol'' = None \<and>
    process_version eol today upstream st v = Inr st'"
  then have u: "upstream v = Some vdata" and n: "vdata ''eol'' = None"
    and p: "process_version eol today upstream st v = Inr st'" by simp_all
  show "max_eol st' = max_eol st"
  proof (cases "skipped eol today vdata")
    case True
    with u p show ?thesis by (simp add: process_version_def)
  next
    case False
    from process_version_kept [OF u False p] obtain bars0 bars where
      "update_max_eol vdata (max_eol st) bars0 = Inr (max_eol st', bars)" by blast
    from update_max_eol_no_eol [OF n this] show ?thesis by simp
  qed
next
  assume "build_bars vdata' = Inr bars \<and> vdata' ''eol'' = Some e"
  then show "bars \<noteq> []" "snd (last bars) = e"
    using build_bars_last_eol [of vdata' bars e] by simp_all
qed

theorem max_eol_running_maximum_witness:
  "(\<exists>final. first_loop True (2026, 11, 4) upstream_a init_state ([''2.7'', ''3.4''] @ [''3.10'']) = Inr final) \<and>
   (\<exists>st. first_loop True (2026, 11, 4) upstream_a init_state [''2.7'', ''3.4''] = Inr st \<and>
         max_eol st = Some (2020, 1, 1)) \<and>
   eol_dates True (2026, 11, 4) upstream_a [''2.7'', ''3.4''] = [(2020, 1, 1), (2019, 3, 18)] \<and>
   upstream_a ''3.10'' = Some r310 \<and> r310 ''eol'' = None \<and>
   build_bars r27 = Inr [(Alpha, (2009, 12, 5)), (Beta, (2010, 4, 10)), (Rc, (2010, 6, 6)),
                          (Stable, (2010, 7, 3)), (Security, (2020, 1, 1))] \<and>
   r27 ''eol'' = Some (2020, 1, 1)"
proof -
  have "\<exists>final. first_loop True (2026, 11, 4) upstream_a init_state ([''2.7'', ''3.4''] @ [''3.10'']) = Inr final"
    by (simp add: example_defs loop_defs)
  then obtain final where
    h: "first_loop True (2026, 11, 4) upstream_a init_state ([''2.7'', ''3.4''] @ [''3.10'']) = Inr final" ..
  have e: "eol_dates True (2026, 11, 4) upstream_a [''2.7'', ''3.4''] = [(2020, 1, 1), (2019, 3, 18)]"
    by (simp add: eol_dates_def example_defs skipped_def)
  have m: "maximum [(2020, 1, 1), (2019, 3, 18)] = Some (2020, 1, 1)"
    by (simp add: max_def)
  have b: "build_bars r27 = Inr [(Alpha, (2009, 12, 5)), (Beta, (2010, 4, 10)), (Rc, (2010, 6, 6)),
                          (Stable, (2010, 7, 3)), (Security, (2020, 1, 1))]"
    by (simp add: r27_def build_bars_def getitem_def)
  have k: "upstream_a ''3.10'' = Some r310" "r310 ''eol'' = None" "r27 ''eol'' = Some (2020, 1, 1)"
    by (simp_all add: example_defs)
  from max_eol_running_maximum [of True "(2026, 11, 4)" upstream_a "[''2.7'', ''3.4'']" "[''3.10'']" final]
    h e m b k
  show ?thesis by simp
qed

lemma update_max_eol_bars:
  "update_max_eol vdata m bars = Inr (m', bars') \<Longrightarrow>
   bars' = bars @ (case vdata ''eol'' of None \<Rightarrow> map (Pair Future) (opt_list m) | Some e \<Rightarrow> [])"
  by (cases m) (auto simp: update_max_eol_def split: option.splits if_splits)

lemma update_max_eol_error:
  "update_max_eol vdata m bars = Inl e \<Longrightarrow> bars \<noteq> [] \<Longrightarrow>
   e = AssertionError \<and> m = None \<and> vdata ''eol'' = None"
  by (cases m) (auto simp: update_max_eol_def split: option.splits if_splits)

lemma build_bars_sequence:
  "build_bars vdata = Inr bars \<Longrightarrow>
   bars @ (case vdata ''eol'' of None \<Rightarrow> map (Pair Future) (opt_list m) | Some e \<Rightarrow> [])
     = bar_sequence vdata m"
  by (auto simp: build_bars_def getitem_def Let_def bar_sequence_def
           split: option.splits sum.splits if_splits)

lemma process_version_sequence:
  assumes "upstream version = Some vdata" and "\<not> skipped eol today vdata"
    and "process_version eol today upstream st version = Inr st'"
  shows "all_rows st' version = all_rows st version @ [(version, bar_sequence vdata (max_eol st))]"
    and "vdata ''alpha1'' \<noteq> None" and "vdata ''beta1'' \<noteq> None"
    and "vdata ''rc1'' \<noteq> None" and "vdata ''final'' \<noteq> None"
    and "vdata ''eol'' \<noteq> None \<longrightarrow> vdata ''last-bugfix'' \<noteq> None"
    and "vdata ''eol'' = None \<longrightarrow> max_eol st \<noteq> None"
proof -
  from process_version_kept [OF assms] obtain bars0 bars where
    b: "build_bars vdata = Inr bars0" and
    u: "update_max_eol vdata (max_eol st) bars0 = Inr (max_eol st', bars)" and
    r: "all_rows st' = (all_rows st)(version := all_rows st version @ [(version, bars)])"
    by blast
  from update_max_eol_bars [OF u] build_bars_sequence [OF b, of "max_eol st"]
  have "bars = bar_sequence vdata (max_eol st)" by simp
  with r show "all_rows st' version = all_rows st version @ [(version, bar_sequence vdata (max_eol st))]"
    by simp
  from build_bars_required [OF b]
  show "vdata ''alpha1'' \<noteq> None" "vdata ''beta1'' \<noteq> None"
    "vdata ''rc1'' \<noteq> None" "vdata ''final'' \<noteq> None"
    "vdata ''eol'' \<noteq> None \<longrightarrow> vdata ''last-bugfix'' \<noteq> None"
    by blast+
  show "vdata ''eol'' = None \<longrightarrow> max_eol st \<noteq> None"
    using update_max_eol_no_eol [OF _ u] by blast
qed

lemma set_opt_list [simp]: "set (opt_list x) = set_option x"
  by (cases x) simp_all

lemma bar_sequence_Eol:
  "(Eol, d) \<in> set (bar_sequence vdata m) \<longleftrightarrow>
   vdata ''eol'' = Some d \<and> vdata ''last-bugfix'' \<noteq> Some d"
proof (cases "vdata ''eol''")
  case None
  then show ?thesis by (auto simp: bar_sequence_def)
next
  case (Some e)
  then show ?thesis by (auto simp: bar_sequence_def)
qed

lemma bar_sequence_security_last:
  assumes "vdata ''eol'' = Some d" and "vdata ''last-bugfix'' = Some d"
  shows "last (bar_sequence vdata m) = (Security, d)"
    and "Eol \<notin> fst ` set (bar_sequence vdata m)"
  using assms by (auto simp: bar_sequence_def)

text \<open>
  C5: a version that is worked on gets the bar \<open>("eol", d)\<close> exactly when its record
  has \<open>eol = d\<close> and \<open>last-bugfix\<close> is not \<open>d\<close>; when \<open>eol\<close> equals
  \<open>last-bugfix\<close> there is no \<open>"eol"\<close> bar and the \<open>"security"\<close> bar is the last
  one; a record with \<open>eol\<close> and without \<open>last-bugfix\<close> raises KeyError.
\<close>

theorem eol_bar_rule:
  "(upstream v = Some vdata \<and> \<not> skipped eol today vdata \<and>
    process_version eol today upstream st v = Inr st' \<longrightarrow>
      (\<exists>bars. all_rows st' v = all_rows st v @ [(v, bars)] \<and>
         (\<forall>d. (Eol, d) \<in> set bars \<longleftrightarrow>
               vdata ''eol'' = Some d \<and> vdata ''last-bugfix'' \<noteq> Some d) \<and>
         (\<forall>d. vdata ''eol'' = Some d \<and> vdata ''last-bugfix'' = Some d \<longrightarrow>
               last bars = (Security, d) \<and> Eol \<notin> fst ` set bars))) \<and>
   (upstream v = Some vdata \<and> \<not> skipped eol today vdata \<and>
    vdata ''eol'' = Some e \<and> vdata ''last-bugfix'' = None \<longrightarrow>
      process_version eol today upstream st v = Inl KeyError)"
proof (intro conjI impI)
  assume "upstream v = Some vdata \<and> \<not> skipped eol today vdata \<and>
    process_version eol today upstream st v = Inr st'"
  then have u: "upstream v = Some vdata" and k: "\<not> skipped eol today vdata"
    and p: "process_version eol today upstream st v = Inr st'" by simp_all
  let ?bars = "bar_sequence vdata (max_eol st)"
  have "all_rows st' v = all_rows st v @ [(v, ?bars)]"
    by (rule process_version_sequence(1) [OF u k p])
  moreover have "\<forall>d. (Eol, d) \<in> set ?bars \<longleftrightarrow>
               vdata ''eol'' = Some d \<and> vdata ''last-bugfix'' \<noteq> Some d"
    using bar_sequence_Eol by blast
  moreover have "\<forall>d. vdata ''eol'' = Some d \<and> vdata ''last-bugfix'' = Some d \<longrightarrow>
               last ?bars = (Security, d) \<and> Eol \<notin> fst ` set ?bars"
    by (simp add: bar_sequence_security_last)
  ultimately show "\<exists>bars. all_rows st' v = all_rows st v @ [(v, bars)] \<and>
         (\<forall>d. (Eol, d) \<in> set bars \<longleftrightarrow>
               vdata ''eol'' = Some d \<and> vdata ''last-bugfix'' \<noteq> Some d) \<and>
         (\<forall>d. vdata ''eol'' = Some d \<and> vdata ''last-bugfix'' = Some d \<longrightarrow>
               last bars = (Security, d) \<and> Eol \<notin> fst ` set bars)"
    by (intro exI [of _ ?bars] conjI)
next
  assume "upstream v = Some vdata \<and> \<not> skipped eol today vdata \<and>
    vdata ''eol'' = Some e \<and> vdata ''last-bugfix'' = None"
  then have u: "upstream v = Some vdata" and k: "\<not> skipped eol today vdata"
    and e: "vdata ''eol'' = Some e" and l: "vdata ''last-bugfix'' = None" by simp_all
  from build_bars_eol_no_bugfix [OF e l] u k
  show "process_version eol today upstream st v = Inl KeyError"
    by (simp add: process_version_def)
qed

lemma bar_sequence_length:
  assumes "vdata ''alpha1'' \<noteq> None" "vdata ''beta1'' \<noteq> None" "vdata ''rc1'' \<noteq> None"
    "vdata ''final'' \<noteq> None" "vdata ''eol'' \<noteq> None \<longrightarrow> vdata ''last-bugfix'' \<noteq> None"
    "vdata ''eol'' = None \<longrightarrow> m \<noteq> None"
  shows "5 \<le> length (bar_sequence vdata m)"
    and "{Alpha, Beta, Rc, Stable} \<subseteq> fst ` set (bar_sequence vdata m)"
    and "vdata ''eol'' = None \<longrightarrow> fst (last (bar_sequence vdata m)) = Future"
    and "vdata ''eol'' \<noteq> None \<longrightarrow> Security \<in> fst ` set (bar_sequence vdata m)"
proof -
  from assms(1-4) obtain a b r f where
    k: "vdata ''alpha1'' = Some a" "vdata ''beta1'' = Some b"
       "vdata ''rc1'' = Some r" "vdata ''final'' = Some f"
    by blast
  show "5 \<le> length (bar_sequence vdata m)"
  proof (cases "vdata ''eol''")
    case None
    with assms(6) obtain d where "m = Some d" by blast
    with None k show ?thesis by (simp add: bar_sequence_def)
  next
    case (Some e)
    with assms(5) obtain l where "vdata ''last-bugfix'' = Some l" by blast
    with Some k show ?thesis by (simp add: bar_sequence_def)
  qed
  from k show "{Alpha, Beta, Rc, Stable} \<subseteq> fst ` set (bar_sequence vdata m)"
    by (simp add: bar_sequence_def image_Un)
  show "vdata ''eol'' = None \<longrightarrow> fst (last (bar_sequence vdata m)) = Future"
  proof
    assume n: "vdata ''eol'' = None"
    with assms(6) obtain d where "m = Some d" by blast
    with n show "fst (last (bar_sequence vdata m)) = Future" by (simp add: bar_sequence_def)
  qed
  show "vdata ''eol'' \<noteq> None \<longrightarrow> Security \<in> fst ` set (bar_sequence vdata m)"
  proof
    assume "vdata ''eol'' \<noteq> None"
    with assms(5) obtain l where "vdata ''last-bugfix'' = Some l" by blast
    then show "Security \<in> fst ` set (bar_sequence vdata m)"
      by (simp add: bar_sequence_def image_Un)
  qed
qed

text \<open>
  C10: a version worked on to the end has at least five bars, the four mandatory ones
  and then \<open>"future"\<close> (no \<open>eol\<close>) or \<open>"security"\<close> (with \<open>eol\<close>), and so at
  least four rows.
\<close>

theorem processed_version_five_bars:
  "upstream v = Some vdata \<and> \<not> skipped eol today vdata \<and>
   process_version eol today upstream st v = Inr st' \<longrightarrow>
     (\<exists>bars. all_rows st' v = all_rows st v @ [(v, bars)] \<and>
        5 \<le> length bars \<and> 4 \<le> length (print_row v bars) \<and>
        {Alpha, Beta, Rc, Stable} \<subseteq> fst ` set bars \<and>
        (vdata ''eol'' = None \<longrightarrow> fst (last bars) = Future) \<and>
        (vdata ''eol'' \<noteq> None \<longrightarrow> Security \<in> fst ` set bars))"
proof
  assume "upstream v = Some vdata \<and> \<not> skipped eol today vdata \<and>
    process_version eol today upstream st v = Inr st'"
  then have u: "upstream v = Some vdata" and k: "\<not> skipped eol today vdata"
    and p: "process_version eol today upstream st v = Inr st'" by simp_all
  let ?bars = "bar_sequence vdata (max_eol st)"
  note s = process_version_sequence [OF u k p]
  note l = bar_sequence_length [OF s(2-7)]
  have "all_rows st' v = all_rows st v @ [(v, ?bars)]" by (rule s(1))
  moreover have "5 \<le> length ?bars" by (rule l(1))
  moreover from l(1) have "4 \<le> length (print_row v ?bars)" by (simp add: length_print_row)
  moreover have "{Alpha, Beta, Rc, Stable} \<subseteq> fst ` set ?bars" by (rule l(2))
  moreover have "vdata ''eol'' = None \<longrightarrow> fst (last ?bars) = Future" by (rule l(3))
  moreover have "vdata ''eol'' \<noteq> None \<longrightarrow> Security \<in> fst ` set ?bars" by (rule l(4))
  ultimately show "\<exists>bars. all_rows st' v = all_rows st v @ [(v, bars)] \<and>
        5 \<le> length bars \<and> 4 \<le> length (print_row v bars) \<and>
        {Alpha, Beta, Rc, Stable} \<subseteq> fst ` set bars \<and>
        (vdata ''eol'' = None \<longrightarrow> fst (last bars) = Future) \<and>
        (vdata ''eol'' \<noteq> None \<longrightarrow> Security \<in> fst ` set bars)"
    by (intro exI [of _ ?bars] conjI)
qed

theorem eol_bar_rule_witness:
  "upstream_a ''2.7'' = Some r27 \<and> \<not> skipped True (2026, 11, 4) r27 \<and>
   r27 ''eol'' = Some (2020, 1, 1) \<and> r27 ''last-bugfix'' = Some (2020, 1, 1) \<and>
   (\<exists>st'. process_version True (2026, 11, 4) upstream_a init_state ''2.7'' = Inr st' \<and>
      (\<exists>bars. all_rows st' ''2.7'' = all_rows init_state ''2.7'' @ [(''2.7'', bars)] \<and>
         last bars = (Security, (2020, 1, 1)) \<and> Eol \<notin> fst ` set bars)) \<and>
   upstream_b ''3.0'' = Some r30 \<and> \<not> skipped True (2026, 11, 4) r30 \<and>
   r30 ''eol'' = Some (2009, 6, 27) \<and> r30 ''last-bugfix'' = None \<and>
   process_version True (2026, 11, 4) upstream_b init_state ''3.0'' = Inl KeyError"
proof -
  have a: "upstream_a ''2.7'' = Some r27" "\<not> skipped True (2026, 11, 4) r27"
    "r27 ''eol'' = Some (2020, 1, 1)" "r27 ''last-bugfix'' = Some (2020, 1, 1)"
    by (simp_all add: upstream_a_def r27_def skipped_def)
  have "\<exists>st'. process_version True (2026, 11, 4) upstream_a init_state ''2.7'' = Inr st'"
    by (simp add: upstream_a_def r27_def loop_defs)
  then obtain st' where
    p: "process_version True (2026, 11, 4) upstream_a init_state ''2.7'' = Inr st'" ..
  have b: "upstream_b ''3.0'' = Some r30" "\<not> skipped True (2026, 11, 4) r30"
    "r30 ''eol'' = Some (2009, 6, 27)" "r30 ''last-bugfix'' = None"
    by (simp_all add: upstream_b_def r30_def skipped_def)
  from eol_bar_rule [of upstream_a "''2.7''" r27 True "(2026, 11, 4)" init_state st'] a p
  have 1: "\<exists>bars. all_rows st' ''2.7'' = all_rows init_state ''2.7'' @ [(''2.7'', bars)] \<and>
         last bars = (Security, (2020, 1, 1)) \<and> Eol \<notin> fst ` set bars"
    by auto
  from eol_bar_rule [of upstream_b "''3.0''" r30 True "(2026, 11, 4)" init_state _ "(2009, 6, 27)"] b
  have 2: "process_version True (2026, 11, 4) upstream_b init_state ''3.0'' = Inl KeyError"
    by simp
  from a b p 1 2 show ?thesis by simp
qed

theorem processed_version_five_bars_witness:
  "upstream_a ''3.4'' = Some r34 \<and> \<not> skipped False (2018, 1, 1) r34 \<and>
   (\<exists>st'. process_version False (2018, 1, 1) upstream_a init_state ''3.4'' = Inr st' \<and>
      (\<exists>bars. all_rows st' ''3.4'' = all_rows init_state ''3.4'' @ [(''3.4'', bars)] \<and>
         5 \<le> length bars \<and> 4 \<le> length (print_row ''3.4'' bars)))"
proof -
  have a: "upstream_a ''3.4'' = Some r34" "\<not> skipped False (2018, 1, 1) r34"
    by (simp_all add: upstream_a_def r34_def skipped_def)
  have "\<exists>st'. process_version False (2018, 1, 1) upstream_a init_state ''3.4'' = Inr st'"
    by (simp add: upstream_a_def r34_def loop_defs)
  then obtain st' where
    p: "process_version False (2018, 1, 1) upstream_a init_state ''3.4'' = Inr st'" ..
  from processed_version_five_bars [of upstream_a "''3.4''" r34 False "(2018, 1, 1)" init_state st'] a p
  have "\<exists>bars. all_rows st' ''3.4'' = all_rows init_state ''3.4'' @ [(''3.4'', bars)] \<and>
         5 \<le> length bars \<and> 4 \<le> length (print_row ''3.4'' bars)"
    by blast
  with a p show ?thesis by blast
qed

lemma process_version_missing:
  assumes "upstream v = Some vdata" and "\<not> skipped eol today vdata"
    and "vdata ''alpha1'' = None \<or> vdata ''beta1'' = None \<or> vdata ''rc1'' = None \<or>
         vdata ''final'' = None"
  shows "process_version eol today upstream st v = Inl KeyError"
  using assms(1,2) build_bars_missing [OF assms(3)] by (simp add: process_version_def)

lemma first_loop_fails:
  assumes "v \<in> set vs" and "\<And>st. \<exists>e. process_version eol today upstream st v = Inl e"
  shows "\<exists>e. first_loop eol today upstream st vs = Inl e"
  using assms(1)
proof (induction vs arbitrary: st)
  case Nil
  then show ?case by simp
next
  case (Cons u us)
  show ?case
  proof (cases "process_version eol today upstream st u")
    case (Inl e)
    then show ?thesis by simp
  next
    case (Inr st1)
    with assms(2) [of st] have "u \<noteq> v" by auto
    with Cons.prems have "v \<in> set us" by simp
    from Cons.IH [OF this, of st1] Inr show ?thesis by simp
  qed
qed

lemma upstream_in_versions:
  assumes "upstream_of data v = Some vdata"
  shows "v \<in> set (versions_of data)"
proof -
  from assms obtain table where t: "map_of data ''upstream'' = Some table"
    and m: "map_of table v = Some vdata"
    by (auto simp: upstream_of_def split: option.splits)
  from t have "(''upstream'', table) \<in> set data" by (rule map_of_SomeD)
  moreover from m have "(v, vdata) \<in> set table" by (rule map_of_SomeD)
  ultimately show ?thesis
    by (force simp: versions_of_def)
qed

lemma with_keys_Inr:
  "with_keys vs = Inr ks \<Longrightarrow>
   ks = map (\<lambda>v. (key_of v, v)) vs \<and> (\<forall>v \<in> set vs. version_key v = Inr (key_of v))"
  by (induction vs arbitrary: ks) (auto simp: key_of_def split: sum.splits)

lemma sort_key_pairs_aux:
  "sort_key fst (map (\<lambda>v. (f v, v)) vs) = map (\<lambda>v. (f v, v)) (sort_key f vs)"
proof (induction vs)
  case Nil
  then show ?case by simp
next
  case (Cons v vs)
  have "insort_key fst (f v, v) (map (\<lambda>v. (f v, v)) ws) = map (\<lambda>v. (f v, v)) (insort_key f v ws)" for ws
    by (induction ws) auto
  with Cons show ?case by simp
qed

lemma sorted_versions_Inr:
  assumes "sorted_versions vs = Inr ys"
  shows "ys = sort_key key_of vs" and "\<forall>v \<in> set vs. version_key v = Inr (key_of v)"
proof -
  from assms obtain ks where k: "with_keys vs = Inr ks" and y: "ys = map snd (sort_key fst ks)"
    by (auto simp: sorted_versions_def split: sum.splits)
  from with_keys_Inr [OF k] have ks: "ks = map (\<lambda>v. (key_of v, v)) vs"
    and ok: "\<forall>v \<in> set vs. version_key v = Inr (key_of v)" by simp_all
  from y ks show "ys = sort_key key_of vs"
    by (simp add: sort_key_pairs_aux comp_def)
  from ok show "\<forall>v \<in> set vs. version_key v = Inr (key_of v)" .
qed

subsection \<open>Errors and skipped versions\<close>

lemma sorted_versions_set:
  "sorted_versions vs = Inr ys \<Longrightarrow> set ys = set vs"
  using sorted_versions_Inr(1) [of vs ys] by simp

lemma generate_timeline_fails:
  assumes "upstream_of data v = Some vdata"
    and "\<And>st. \<exists>e. process_version eol today (upstream_of data) st v = Inl e"
  shows "\<exists>e. generate_timeline data today eol = Inl e"
proof (cases "sorted_versions (versions_of data)")
  case (Inl e)
  then show ?thesis by (simp add: generate_timeline_def)
next
  case (Inr ys)
  from upstream_in_versions [OF assms(1)] sorted_versions_set [OF Inr] have "v \<in> set ys" by simp
  from first_loop_fails [OF this assms(2), of init_state] Inr show ?thesis
    by (auto simp: generate_timeline_def)
qed

lemma main_fails:
  assumes "\<exists>e. generate_timeline data today True = Inl e"
  shows "\<exists>e. main data today = Inl e"
  using assms by (cases "generate_timeline data today False") (auto simp: main_def)

text \<open>
  C6, as amended: a version with a record under \<open>upstream\<close> that lacks one of
  \<open>alpha1\<close>, \<open>beta1\<close>, \<open>rc1\<close>, \<open>final\<close> raises KeyError when it is worked on, and
  the pass aborts, provided the version is not skipped (line 132), that is in the pass
  with the retired versions, or in the other pass when the record has no \<open>eol\<close> or an
  \<open>eol\<close> after today. The pass with the retired versions skips nothing, so it and
  \<open>main\<close> abort for every such record.
\<close>

theorem missing_milestone_aborts:
  "(upstream v = Some vdata \<and> \<not> skipped eol today vdata \<and>
    (vdata ''alpha1'' = None \<or> vdata ''beta1'' = None \<or> vdata ''rc1'' = None \<or>
     vdata ''final'' = None) \<longrightarrow>
      process_version eol today upstream st v = Inl KeyError \<and>
      (v \<in> set vs \<longrightarrow> (\<exists>e. first_loop eol today upstream st vs = Inl e))) \<and>
   (upstream_of data v = Some vdata \<and>
    (vdata ''alpha1'' = None \<or> vdata ''beta1'' = None \<or> vdata ''rc1'' = None \<or>
     vdata ''final'' = None) \<longrightarrow>
      (\<exists>e. generate_timeline data today True = Inl e) \<and> (\<exists>e. main data today = Inl e))"
proof (intro conjI impI)
  assume a: "upstream v = Some vdata \<and> \<not> skipped eol today vdata \<and>
    (vdata ''alpha1'' = None \<or> vdata ''beta1'' = None \<or> vdata ''rc1'' = None \<or>
     vdata ''final'' = None)"
  then have p: "process_version eol today upstream st' v = Inl KeyError" for st'
    using process_version_missing [of upstream v vdata eol today st'] by blast
  from p show "process_version eol today upstream st v = Inl KeyError" .
  assume "v \<in> set vs"
  from first_loop_fails [OF this, of eol today upstream st] p
  show "\<exists>e. first_loop eol today upstream st vs = Inl e" by blast
next
  assume a: "upstream_of data v = Some vdata \<and>
    (vdata ''alpha1'' = None \<or> vdata ''beta1'' = None \<or> vdata ''rc1'' = None \<or>
     vdata ''final'' = None)"
  have "\<not> skipped True today vdata" by (simp add: skipped_def)
  with a have p: "process_version True today (upstream_of data) st' v = Inl KeyError" for st'
    using process_version_missing [of "upstream_of data" v vdata True today st'] by blast
  from a have u: "upstream_of data v = Some vdata" by simp
  from generate_timeline_fails [OF u, of True today] p
  show g: "\<exists>e. generate_timeline data today True = Inl e" by blast
  from main_fails [OF g] show "\<exists>e. main data today = Inl e" .
qed

theorem missing_milestone_aborts_witness:
  "upstream_b ''2.6'' = Some r26 \<and> \<not> skipped False (2012, 1, 1) r26 \<and> r26 ''alpha1'' = None \<and>
   process_version False (2012, 1, 1) upstream_b init_state ''2.6'' = Inl KeyError \<and>
   (\<exists>e. first_loop False (2012, 1, 1) upstream_b init_state [''2.6'', ''3.0''] = Inl e) \<and>
   upstream_of data_b ''2.6'' = Some r26 \<and>
   (\<exists>e. generate_timeline data_b (2012, 1, 1) True = Inl e) \<and>
   (\<exists>e. main data_b (2012, 1, 1) = Inl e)"
proof -
  have a: "upstream_b ''2.6'' = Some r26" "\<not> skipped False (2012, 1, 1) r26"
    "r26 ''alpha1'' = None" "upstream_of data_b ''2.6'' = Some r26"
    by (simp_all add: upstream_b_def r26_def skipped_def upstream_of_def data_b_def)
  have m: "''2.6'' \<in> set [''2.6'', ''3.0'']" by simp
  from missing_milestone_aborts [of upstream_b "''2.6''" r26 False "(2012, 1, 1)" init_state
      "[''2.6'', ''3.0'']" data_b] a m
  show ?thesis by simp
qed

text \<open>
  C6, as stated, fails in the pass without the retired versions: the record of 2.6 has
  no \<open>alpha1\<close>, its \<open>eol\<close> is past, and the pass completes.
\<close>

theorem missing_milestone_counterexample:
  "upstream_of data_b ''2.6'' = Some r26 \<and> r26 ''alpha1'' = None \<and>
   r26 ''eol'' = Some (2013, 10, 29) \<and>
   process_version False (2026, 11, 4) (upstream_of data_b) init_state ''2.6'' = Inr init_state \<and>
   generate_timeline data_b (2026, 11, 4) False = Inr []"
  by (simp add: data_b_def r26_def sort_defs process_version_def skipped_def init_state_def)

text \<open>
  C9: in the pass without the retired versions a record whose \<open>eol\<close> is on or before
  today is skipped before any other key is read: whatever else the record holds, the
  variables of the loop (\<open>max_eol\<close> among them) stay as they are and the loop goes on;
  the same record, when a mandatory milestone is missing, aborts the pass with the
  retired versions.
\<close>

theorem retired_version_skipped_before_lookups:
  "upstream v = Some vdata \<and> vdata ''eol'' = Some e \<and> e \<le> today \<longrightarrow>
     process_version False today upstream st v = Inr st \<and>
     first_loop False today upstream st (v # vs) = first_loop False today upstream st vs \<and>
     (vdata ''alpha1'' = None \<or> vdata ''beta1'' = None \<or> vdata ''rc1'' = None \<or>
      vdata ''final'' = None \<longrightarrow>
        process_version True today upstream st v = Inl KeyError \<and>
        first_loop True today upstream st (v # vs) = Inl KeyError)"
proof (intro impI)
  assume "upstream v = Some vdata \<and> vdata ''eol'' = Some e \<and> e \<le> today"
  then have u: "upstream v = Some vdata" and s: "skipped False today vdata"
    by (simp_all add: skipped_def)
  have 1: "process_version False today upstream st v = Inr st"
    using process_version_skipped [of upstream v vdata False today st] u s by simp
  then have 2: "first_loop False today upstream st (v # vs) = first_loop False today upstream st vs"
    by simp
  have 3: "process_version True today upstream st v = Inl KeyError"
    if "vdata ''alpha1'' = None \<or> vdata ''beta1'' = None \<or> vdata ''rc1'' = None \<or>
      vdata ''final'' = None"
    using process_version_missing [of upstream v vdata True today st] u that
    by (simp add: skipped_def)
  from 1 2 3 show "process_version False today upstream st v = Inr st \<and>
     first_loop False today upstream st (v # vs) = first_loop False today upstream st vs \<and>
     (vdata ''alpha1'' = None \<or> vdata ''beta1'' = None \<or> vdata ''rc1'' = None \<or>
      vdata ''final'' = None \<longrightarrow>
        process_version True today upstream st v = Inl KeyError \<and>
        first_loop True today upstream st (v # vs) = Inl KeyError)"
    by simp
qed

theorem retired_version_skipped_before_lookups_witness:
  "upstream_b ''2.6'' = Some r26 \<and> r26 ''eol'' = Some (2013, 10, 29) \<and>
   (2013, 10, 29) \<le> ((2026, 11, 4) :: date) \<and> r26 ''alpha1'' = None \<and>
   process_version False (2026, 11, 4) upstream_b init_state ''2.6'' = Inr init_state \<and>
   first_loop False (2026, 11, 4) upstream_b init_state [''2.6''] = Inr init_state \<and>
   process_version True (2026, 11, 4) upstream_b init_state ''2.6'' = Inl KeyError \<and>
   first_loop True (2026, 11, 4) upstream_b init_state [''2.6''] = Inl KeyError"
proof -
  have a: "upstream_b ''2.6'' = Some r26" "r26 ''eol'' = Some (2013, 10, 29)"
    "(2013, 10, 29) \<le> ((2026, 11, 4) :: date)" "r26 ''alpha1'' = None"
    by (simp_all add: upstream_b_def r26_def)
  from retired_version_skipped_before_lookups [of upstream_b "''2.6''" r26 "(2013, 10, 29)"
      "(2026, 11, 4)" init_state "[]"] a
  show ?thesis by simp
qed

subsection \<open>The future bar\<close>

lemma eol_dates_mem:
  assumes "u \<in> set vs" and "upstream u = Some udata" and "\<not> skipped eol today udata"
    and "udata ''eol'' = Some e"
  shows "e \<in> set (eol_dates eol today upstream vs)"
proof -
  from assms(2-4) have "e \<in> set (eol_dates eol today upstream [u])"
    by (simp add: eol_dates_one)
  then have "e \<in> set (case upstream u of
          None \<Rightarrow> []
        | Some vdata \<Rightarrow>
            if skipped eol today vdata then []
            else (case vdata ''eol'' of None \<Rightarrow> [] | Some e \<Rightarrow> [e]))"
    by (simp add: eol_dates_one)
  with assms(1) show ?thesis
    unfolding eol_dates_def set_concat set_map by blast
qed

lemma maximum_ge:
  assumes "e \<in> set ds"
  shows "\<exists>m. maximum ds = Some m \<and> e \<le> m"
proof (intro exI [of _ "Max (set ds)"] conjI)
  from assms show "maximum ds = Some (Max (set ds))" by (auto simp: maximum_def)
  from assms show "e \<le> Max (set ds)" by simp
qed

lemma process_version_no_assertion:
  assumes "max_eol st = Some m"
  shows "process_version eol today upstream st v \<noteq> Inl AssertionError"
proof (cases "upstream v")
  case None
  then show ?thesis by (simp add: process_version_def)
next
  case (Some vdata)
  show ?thesis
  proof (cases "skipped eol today vdata")
    case True
    with Some show ?thesis by (simp add: process_version_def)
  next
    case False
    show ?thesis
    proof (cases "build_bars vdata")
      case (Inl e)
      with build_bars_error [OF Inl] Some False show ?thesis
        by (simp add: process_version_def)
    next
      case (Inr bars0)
      from build_bars_nonempty [OF Inr] assms
      have "\<exists>r. update_max_eol vdata (max_eol st) bars0 = Inr r"
        by (simp add: update_max_eol_def split: option.splits)
      with Some False Inr show ?thesis
        by (auto simp: process_version_def split: prod.splits)
    qed
  qed
qed

text \<open>
  C3, as amended: when an earlier version of the pass has a record with \<open>eol\<close> and was
  worked on in this pass (any such version in the pass with the retired versions; one
  whose \<open>eol\<close> is after today in the other pass), \<open>max_eol\<close> is set when a version
  without \<open>eol\<close> is reached, the assertion of line 154 holds, and the bars of that
  version end with \<open>("future", max_eol)\<close>.
\<close>

theorem future_bar_after_processed_eol:
  "first_loop eol today upstream init_state pre = Inr st \<and>
   u \<in> set pre \<and> upstream u = Some udata \<and> udata ''eol'' = Some e \<and> (eol \<or> today < e) \<and>
   upstream v = Some vdata \<and> vdata ''eol'' = None \<longrightarrow>
     (\<exists>m. max_eol st = Some m \<and> e \<le> m \<and>
        process_version eol today upstream st v \<noteq> Inl AssertionError \<and>
        (\<forall>st'. process_version eol today upstream st v = Inr st' \<longrightarrow>
           max_eol st' = Some m \<and>
           (\<exists>bars. all_rows st' v = all_rows st v @ [(v, bars)] \<and> last bars = (Future, m))))"
proof
  assume a: "first_loop eol today upstream init_state pre = Inr st \<and>
   u \<in> set pre \<and> upstream u = Some udata \<and> udata ''eol'' = Some e \<and> (eol \<or> today < e) \<and>
   upstream v = Some vdata \<and> vdata ''eol'' = None"
  then have l: "first_loop eol today upstream init_state pre = Inr st"
    and u: "u \<in> set pre" "upstream u = Some udata" "udata ''eol'' = Some e"
    and k: "\<not> skipped eol today udata"
    and v: "upstream v = Some vdata" and n: "vdata ''eol'' = None"
    by (auto simp: skipped_def)
  from n have nv: "\<not> skipped eol today vdata" by (simp add: skipped_def)
  from first_loop_max_eol [OF l]
  have "max_eol st = maximum (eol_dates eol today upstream pre)"
    by (simp add: init_state_def)
  with maximum_ge [OF eol_dates_mem [of u pre upstream udata eol today e]] u k
  obtain m where m: "max_eol st = Some m" and em: "e \<le> m" by auto
  have 1: "process_version eol today upstream st v \<noteq> Inl AssertionError"
    by (rule process_version_no_assertion [OF m])
  have 2: "max_eol st' = Some m \<and>
           (\<exists>bars. all_rows st' v = all_rows st v @ [(v, bars)] \<and> last bars = (Future, m))"
    if p: "process_version eol today upstream st v = Inr st'" for st'
  proof -
    note s = process_version_sequence [of upstream v vdata eol today st st', OF v nv p]
    from n m have "last (bar_sequence vdata (max_eol st)) = (Future, m)"
      by (simp add: bar_sequence_def)
    with s(1) have "\<exists>bars. all_rows st' v = all_rows st v @ [(v, bars)] \<and> last bars = (Future, m)"
      by blast
    moreover from process_version_max_eol [OF p] v nv n m have "max_eol st' = Some m"
      by (simp add: eol_dates_one)
    ultimately show ?thesis by simp
  qed
  from m em 1 2 show "\<exists>m. max_eol st = Some m \<and> e \<le> m \<and>
        process_version eol today upstream st v \<noteq> Inl AssertionError \<and>
        (\<forall>st'. process_version eol today upstream st v = Inr st' \<longrightarrow>
           max_eol st' = Some m \<and>
           (\<exists>bars. all_rows st' v = all_rows st v @ [(v, bars)] \<and> last bars = (Future, m)))"
    by blast
qed

theorem future_bar_after_processed_eol_witness:
  "(\<exists>st. first_loop False (2018, 1, 1) upstream_a init_state [''2.7'', ''3.4''] = Inr st \<and>
      (\<exists>m. max_eol st = Some m \<and> (2019, 3, 18) \<le> m \<and>
         process_version False (2018, 1, 1) upstream_a st ''3.10'' \<noteq> Inl AssertionError)) \<and>
   ''3.4'' \<in> set [''2.7'', ''3.4''] \<and> upstream_a ''3.4'' = Some r34 \<and>
   r34 ''eol'' = Some (2019, 3, 18) \<and> (2018, 1, 1) < ((2019, 3, 18) :: date) \<and>
   upstream_a ''3.10'' = Some r310 \<and> r310 ''eol'' = None"
proof -
  have "\<exists>st. first_loop False (2018, 1, 1) upstream_a init_state [''2.7'', ''3.4''] = Inr st"
    by (simp add: example_defs loop_defs)
  then obtain st where
    l: "first_loop False (2018, 1, 1) upstream_a init_state [''2.7'', ''3.4''] = Inr st" ..
  have a: "''3.4'' \<in> set [''2.7'', ''3.4'']" "upstream_a ''3.4'' = Some r34"
    "r34 ''eol'' = Some (2019, 3, 18)" "(2018, 1, 1) < ((2019, 3, 18) :: date)"
    "upstream_a ''3.10'' = Some r310" "r310 ''eol'' = None"
    by (simp_all add: example_defs)
  from future_bar_after_processed_eol [of False "(2018, 1, 1)" upstream_a "[''2.7'', ''3.4'']" st
      "''3.4''" r34 "(2019, 3, 18)" "''3.10''" r310] l a
  have "\<exists>m. max_eol st = Some m \<and> (2019, 3, 18) \<le> m \<and>
         process_version False (2018, 1, 1) upstream_a st ''3.10'' \<noteq> Inl AssertionError"
    by auto
  with l a show ?thesis by simp
qed

text \<open>
  C3, as stated, fails in the pass without the retired versions: 3.9 has \<open>eol\<close> and
  comes before 3.10, which has none, but 3.9 is retired and skipped, so \<open>max_eol\<close> is
  unset at 3.10 and the assertion fails.
\<close>

theorem future_bar_counterexample:
  "sorted_versions (versions_of data_c) = Inr [''3.9'', ''3.10''] \<and>
   upstream_of data_c ''3.9'' = Some r39 \<and> r39 ''eol'' = Some (2025, 6, 1) \<and>
   upstream_of data_c ''3.10'' = Some r310 \<and> r310 ''eol'' = None \<and>
   generate_timeline data_c (2026, 11, 4) False = Inl AssertionError"
  by (simp add: data_c_def example_defs sort_defs loop_defs)

subsection \<open>The example of 3.9 and 3.10\<close>

lemma build_bars_ok:
  assumes "vdata ''alpha1'' \<noteq> None" "vdata ''beta1'' \<noteq> None" "vdata ''rc1'' \<noteq> None"
    "vdata ''final'' \<noteq> None" "vdata ''eol'' \<noteq> None \<longrightarrow> vdata ''last-bugfix'' \<noteq> None"
  shows "\<exists>bars. build_bars vdata = Inr bars"
proof -
  from assms(1-4) obtain a b r f where
    k: "vdata ''alpha1'' = Some a" "vdata ''beta1'' = Some b"
       "vdata ''rc1'' = Some r" "vdata ''final'' = Some f"
    by blast
  show ?thesis
  proof (cases "vdata ''eol''")
    case None
    with k show ?thesis by (simp add: build_bars_def getitem_def Let_def)
  next
    case (Some e)
    with assms(5) obtain l where "vdata ''last-bugfix'' = Some l" by blast
    with Some k show ?thesis by (simp add: build_bars_def getitem_def Let_def)
  qed
qed

lemma process_version_ok:
  assumes "upstream v = Some vdata"
    and "vdata ''alpha1'' \<noteq> None" "vdata ''beta1'' \<noteq> None" "vdata ''rc1'' \<noteq> None"
    "vdata ''final'' \<noteq> None" "vdata ''eol'' \<noteq> None \<longrightarrow> vdata ''last-bugfix'' \<noteq> None"
    and "vdata ''eol'' = None \<longrightarrow> max_eol st \<noteq> None"
  shows "\<exists>st'. process_version eol today upstream st v = Inr st'"
proof (cases "skipped eol today vdata")
  case True
  with assms(1) show ?thesis by (simp add: process_version_def)
next
  case False
  from build_bars_ok [OF assms(2-6)] obtain bars where b: "build_bars vdata = Inr bars" ..
  from build_bars_nonempty [OF b] assms(7)
  have "\<exists>r. update_max_eol vdata (max_eol st) bars = Inr r"
    by (auto simp: update_max_eol_def split: option.splits)
  with assms(1) False b show ?thesis
    by (auto simp: process_version_def split: prod.splits)
qed

lemma process_version_other:
  assumes "process_version eol today upstream st u = Inr st'" and "u \<noteq> v"
  shows "all_rows st' v = all_rows st v"
proof (cases "upstream u")
  case None
  with assms(1) show ?thesis by (simp add: process_version_def)
next
  case (Some vdata)
  show ?thesis
  proof (cases "skipped eol today vdata")
    case True
    with Some assms(1) show ?thesis by (simp add: process_version_def)
  next
    case False
    from process_version_kept [OF Some False assms(1)] assms(2) show ?thesis by auto
  qed
qed

lemma last_print_row:
  assumes "2 \<le> length bars"
  shows "snd (snd (snd (last (print_row l bars)))) = snd (last bars)"
    and "fst (last (print_row l bars)) = l" and "print_row l bars \<noteq> []"
proof -
  from assms have n: "print_row l bars \<noteq> []"
    using length_print_row [of l bars] by (cases "print_row l bars") simp_all
  then show "print_row l bars \<noteq> []" .
  from n have "last (print_row l bars) = print_row l bars ! (length bars - 2)"
    by (simp add: last_conv_nth length_print_row numeral_2_eq_2)
  also from assms have "\<dots> = (l, fst (bars ! (length bars - 2)), snd (bars ! (length bars - 2)),
      snd (bars ! Suc (length bars - 2)))"
    by (intro nth_print_row) simp
  finally have e: "last (print_row l bars) = (l, fst (bars ! (length bars - 2)),
      snd (bars ! (length bars - 2)), snd (bars ! Suc (length bars - 2)))" .
  from assms have "Suc (length bars - 2) = length bars - 1" and "bars \<noteq> []" by auto
  then have "bars ! Suc (length bars - 2) = last bars"
    by (simp add: last_conv_nth)
  with e show "snd (snd (snd (last (print_row l bars)))) = snd (last bars)" by simp
  from e show "fst (last (print_row l bars)) = l" by simp
qed

lemma two_elements:
  assumes "distinct xs" and "set xs = {a, b}" and "a \<noteq> b"
  shows "xs = [a, b] \<or> xs = [b, a]"
proof -
  from assms have "length xs = 2" using distinct_card [of xs] by simp
  then obtain x y where xy: "xs = [x, y]"
    by (auto simp: length_Suc_conv numeral_2_eq_2)
  with assms(2) have "{x, y} = {a, b}" by simp
  with xy show ?thesis by (auto simp: doubleton_eq_iff)
qed

lemma sorted_39_310:
  "sorted_versions [''3.9'', ''3.10''] = Inr [''3.9'', ''3.10'']"
  "sorted_versions [''3.10'', ''3.9''] = Inr [''3.9'', ''3.10'']"
  by (simp_all add: sort_defs)

text \<open>
  C8, as amended: with exactly the versions 3.9 (mandatory milestones,
  \<open>last-bugfix = 2024-01-01\<close>, \<open>eol = 2025-06-01\<close>) and 3.10 (mandatory milestones,
  no \<open>eol\<close>), the pass with the retired versions, and the other pass on a day before
  2025-06-01, work on 3.9, then on 3.10, and the bars of 3.10 end with
  \<open>("future", 2025-06-01)\<close>; the last row printed is a row of 3.10 that ends on that day.
\<close>

theorem example_future_bar:
  "set (versions_of data) = {''3.9'', ''3.10''} \<and>
   upstream_of data ''3.9'' = Some v39 \<and> upstream_of data ''3.10'' = Some v310 \<and>
   v39 ''alpha1'' \<noteq> None \<and> v39 ''beta1'' \<noteq> None \<and> v39 ''rc1'' \<noteq> None \<and>
   v39 ''final'' \<noteq> None \<and>
   v39 ''last-bugfix'' = Some (2024, 1, 1) \<and> v39 ''eol'' = Some (2025, 6, 1) \<and>
   v310 ''alpha1'' \<noteq> None \<and> v310 ''beta1'' \<noteq> None \<and> v310 ''rc1'' \<noteq> None \<and>
   v310 ''final'' \<noteq> None \<and> v310 ''eol'' = None \<and>
   (eol \<or> today < (2025, 6, 1)) \<longrightarrow>
     sorted_versions (versions_of data) = Inr [''3.9'', ''3.10''] \<and>
     (\<exists>st. first_loop eol today (upstream_of data) init_state [''3.9'', ''3.10''] = Inr st \<and>
        max_eol st = Some (2025, 6, 1) \<and>
        (\<exists>bars. all_rows st ''3.10'' = [(''3.10'', bars)] \<and>
           last bars = (Future, (2025, 6, 1)))) \<and>
     (\<exists>rows. generate_timeline data today eol = Inr rows \<and>
        fst (last rows) = ''3.10'' \<and> snd (snd (snd (last rows))) = (2025, 6, 1))"
proof
  assume a: "set (versions_of data) = {''3.9'', ''3.10''} \<and>
   upstream_of data ''3.9'' = Some v39 \<and> upstream_of data ''3.10'' = Some v310 \<and>
   v39 ''alpha1'' \<noteq> None \<and> v39 ''beta1'' \<noteq> None \<and> v39 ''rc1'' \<noteq> None \<and>
   v39 ''final'' \<noteq> None \<and>
   v39 ''last-bugfix'' = Some (2024, 1, 1) \<and> v39 ''eol'' = Some (2025, 6, 1) \<and>
   v310 ''alpha1'' \<noteq> None \<and> v310 ''beta1'' \<noteq> None \<and> v310 ''rc1'' \<noteq> None \<and>
   v310 ''final'' \<noteq> None \<and> v310 ''eol'' = None \<and>
   (eol \<or> today < (2025, 6, 1))"
  let ?up = "upstream_of data"
  let ?e = "(2025, 6, 1) :: date"
  from a have vs: "set (versions_of data) = {''3.9'', ''3.10''}"
    and u39: "?up ''3.9'' = Some v39" and u310: "?up ''3.10'' = Some v310"
    and r39: "v39 ''alpha1'' \<noteq> None" "v39 ''beta1'' \<noteq> None" "v39 ''rc1'' \<noteq> None"
      "v39 ''final'' \<noteq> None"
    and l39: "v39 ''last-bugfix'' = Some (2024, 1, 1)" and e39: "v39 ''eol'' = Some ?e"
    and r310: "v310 ''alpha1'' \<noteq> None" "v310 ''beta1'' \<noteq> None" "v310 ''rc1'' \<noteq> None"
      "v310 ''final'' \<noteq> None"
    and e310: "v310 ''eol'' = None" and m: "eol \<or> today < ?e"
    by blast+
  have ne: "''3.9'' \<noteq> ''3.10''" by simp
  have "distinct (versions_of data)" by (simp add: versions_of_def)
  from two_elements [OF this vs ne] sorted_39_310
  have sv: "sorted_versions (versions_of data) = Inr [''3.9'', ''3.10'']" by auto
  from m e39 have k39: "\<not> skipped eol today v39" by (auto simp: skipped_def)
  from e310 have k310: "\<not> skipped eol today v310" by (simp add: skipped_def)
  from l39 e39 have q39: "v39 ''eol'' \<noteq> None \<longrightarrow> v39 ''last-bugfix'' \<noteq> None"
    and n39: "v39 ''eol'' = None \<longrightarrow> max_eol init_state \<noteq> None" by simp_all
  from process_version_ok [of ?up "''3.9''" v39 init_state eol today, OF u39 r39 q39 n39]
  obtain st1 where p1: "process_version eol today ?up init_state ''3.9'' = Inr st1" ..
  from process_version_max_eol [OF p1] u39 k39 e39
  have m1: "max_eol st1 = Some ?e" by (simp add: eol_dates_one init_state_def)
  from process_version_other [OF p1 ne]
  have a1: "all_rows st1 ''3.10'' = []" by (simp add: init_state_def)
  from e310 m1 have q310: "v310 ''eol'' \<noteq> None \<longrightarrow> v310 ''last-bugfix'' \<noteq> None"
    and n310: "v310 ''eol'' = None \<longrightarrow> max_eol st1 \<noteq> None" by simp_all
  from process_version_ok [of ?up "''3.10''" v310 st1 eol today, OF u310 r310 q310 n310]
  obtain st2 where p2: "process_version eol today ?up st1 ''3.10'' = Inr st2" ..
  from p1 p2 have fl: "first_loop eol today ?up init_state [''3.9'', ''3.10''] = Inr st2"
    by simp
  from process_version_max_eol [OF p2] u310 k310 e310 m1
  have m2: "max_eol st2 = Some ?e" by (simp add: eol_dates_one)
  let ?bars = "bar_sequence v310 (max_eol st1)"
  note s = process_version_sequence [of ?up "''3.10''" v310 eol today st1 st2, OF u310 k310 p2]
  from s(1) a1 have a2: "all_rows st2 ''3.10'' = [(''3.10'', ?bars)]" by simp
  from e310 m1 have lb: "last ?bars = (Future, ?e)" by (simp add: bar_sequence_def)
  from bar_sequence_length(1) [OF s(2-7)] have len: "2 \<le> length ?bars" by simp
  from sv fl have g: "generate_timeline data today eol
      = Inr (second_loop (all_rows st2) [''3.9'', ''3.10''])"
    by (simp add: generate_timeline_def)
  let ?rows = "second_loop (all_rows st2) [''3.9'', ''3.10'']"
  from a2 have "?rows = concat (map (\<lambda>(label, bars). print_row label bars)
      (all_rows st2 ''3.9'')) @ print_row ''3.10'' ?bars"
    by (simp add: second_loop_def)
  with last_print_row(3) [OF len, of "''3.10''"]
  have "last ?rows = last (print_row ''3.10'' ?bars)" by simp
  with last_print_row(1,2) [OF len, of "''3.10''"] lb
  have lr: "fst (last ?rows) = ''3.10''" "snd (snd (snd (last ?rows))) = ?e" by simp_all
  from fl m2 a2 lb
  have "\<exists>st. first_loop eol today ?up init_state [''3.9'', ''3.10''] = Inr st \<and>
        max_eol st = Some ?e \<and>
        (\<exists>bars. all_rows st ''3.10'' = [(''3.10'', bars)] \<and> last bars = (Future, ?e))"
    by (intro exI [of _ st2] conjI exI [of _ ?bars])
  moreover from g lr
  have "\<exists>rows. generate_timeline data today eol = Inr rows \<and>
        fst (last rows) = ''3.10'' \<and> snd (snd (snd (last rows))) = ?e"
    by (intro exI [of _ ?rows] conjI)
  ultimately show "sorted_versions (versions_of data) = Inr [''3.9'', ''3.10''] \<and>
     (\<exists>st. first_loop eol today (upstream_of data) init_state [''3.9'', ''3.10''] = Inr st \<and>
        max_eol st = Some (2025, 6, 1) \<and>
        (\<exists>bars. all_rows st ''3.10'' = [(''3.10'', bars)] \<and>
           last bars = (Future, (2025, 6, 1)))) \<and>
     (\<exists>rows. generate_timeline data today eol = Inr rows \<and>
        fst (last rows) = ''3.10'' \<and> snd (snd (snd (last rows))) = (2025, 6, 1))"
    using sv by (intro conjI)
qed

theorem example_future_bar_witness:
  "set (versions_of data_c) = {''3.9'', ''3.10''} \<and>
   upstream_of data_c ''3.9'' = Some r39 \<and> upstream_of data_c ''3.10'' = Some r310 \<and>
   r39 ''last-bugfix'' = Some (2024, 1, 1) \<and> r39 ''eol'' = Some (2025, 6, 1) \<and>
   r310 ''eol'' = None \<and> (2025, 5, 31) < ((2025, 6, 1) :: date) \<and>
   (\<exists>st. first_loop False (2025, 5, 31) (upstream_of data_c) init_state [''3.9'', ''3.10''] = Inr st \<and>
      max_eol st = Some (2025, 6, 1) \<and>
      (\<exists>bars. all_rows st ''3.10'' = [(''3.10'', bars)] \<and> last bars = (Future, (2025, 6, 1)))) \<and>
   (\<exists>rows. generate_timeline data_c (2025, 5, 31) False = Inr rows \<and>
      fst (last rows) = ''3.10'' \<and> snd (snd (snd (last rows))) = (2025, 6, 1)) \<and>
   (\<exists>rows. generate_timeline data_c (2026, 11, 4) True = Inr rows \<and>
      fst (last rows) = ''3.10'' \<and> snd (snd (snd (last rows))) = (2025, 6, 1))"
proof -
  have a: "set (versions_of data_c) = {''3.9'', ''3.10''}"
    "upstream_of data_c ''3.9'' = Some r39" "upstream_of data_c ''3.10'' = Some r310"
    by (auto simp: data_c_def versions_of_def upstream_of_def)
  have b: "r39 ''alpha1'' \<noteq> None" "r39 ''beta1'' \<noteq> None" "r39 ''rc1'' \<noteq> None"
    "r39 ''final'' \<noteq> None" "r39 ''last-bugfix'' = Some (2024, 1, 1)"
    "r39 ''eol'' = Some (2025, 6, 1)"
    by (simp_all add: r39_def)
  have c: "r310 ''alpha1'' \<noteq> None" "r310 ''beta1'' \<noteq> None" "r310 ''rc1'' \<noteq> None"
    "r310 ''final'' \<noteq> None" "r310 ''eol'' = None"
    by (simp_all add: r310_def)
  have d: "(2025, 5, 31) < ((2025, 6, 1) :: date)" by simp
  from example_future_bar [of data_c r39 r310 False "(2025, 5, 31)"] a b c d
  have 1: "(\<exists>st. first_loop False (2025, 5, 31) (upstream_of data_c) init_state [''3.9'', ''3.10''] = Inr st \<and>
      max_eol st = Some (2025, 6, 1) \<and>
      (\<exists>bars. all_rows st ''3.10'' = [(''3.10'', bars)] \<and> last bars = (Future, (2025, 6, 1)))) \<and>
   (\<exists>rows. generate_timeline data_c (2025, 5, 31) False = Inr rows \<and>
      fst (last rows) = ''3.10'' \<and> snd (snd (snd (last rows))) = (2025, 6, 1))"
    by simp
  from example_future_bar [of data_c r39 r310 True "(2026, 11, 4)"] a b c
  have 2: "\<exists>rows. generate_timeline data_c (2026, 11, 4) True = Inr rows \<and>
      fst (last rows) = ''3.10'' \<and> snd (snd (snd (last rows))) = (2025, 6, 1)"
    by simp
  from a b c d 1 2 show ?thesis by simp
qed

text \<open>
  C8, as stated for every mode and day, fails: on 2025-06-01 the pass without the
  retired versions skips 3.9 and the assertion fails at 3.10.
\<close>

theorem example_future_bar_counterexample:
  "upstream_of data_c ''3.9'' = Some r39 \<and> upstream_of data_c ''3.10'' = Some r310 \<and>
   r39 ''last-bugfix'' = Some (2024, 1, 1) \<and> r39 ''eol'' = Some (2025, 6, 1) \<and>
   r310 ''eol'' = None \<and>
   first_loop False (2025, 6, 1) (upstream_of data_c) init_state [''3.9'', ''3.10'']
     = Inl AssertionError \<and>
   generate_timeline data_c (2025, 6, 1) False = Inl AssertionError \<and>
   main data_c (2025, 6, 1) = Inl AssertionError"
  by (simp add: data_c_def example_defs sort_defs loop_defs)

subsection \<open>The rows of a pass\<close>

lemma first_loop_other:
  "first_loop eol today upstream st vs = Inr st' \<Longrightarrow> v \<notin> set vs \<Longrightarrow>
   all_rows st' v = all_rows st v"
proof (induction vs arbitrary: st)
  case Nil
  then show ?case by simp
next
  case (Cons u us)
  from Cons.prems(1) obtain st1 where
    p: "process_version eol today upstream st u = Inr st1" and
    l: "first_loop eol today upstream st1 us = Inr st'"
    by (auto split: sum.splits)
  from Cons.prems(2) have "u \<noteq> v" "v \<notin> set us" by auto
  with Cons.IH [OF l] process_version_other [OF p] show ?case by simp
qed

lemma first_loop_skipped:
  assumes "upstream v = Some vdata" and "skipped eol today vdata"
  shows "first_loop eol today upstream st vs = Inr st' \<Longrightarrow> all_rows st' v = all_rows st v"
proof (induction vs arbitrary: st)
  case Nil
  then show ?case by simp
next
  case (Cons u us)
  from Cons.prems(1) obtain st1 where
    p: "process_version eol today upstream st u = Inr st1" and
    l: "first_loop eol today upstream st1 us = Inr st'"
    by (auto split: sum.splits)
  have "all_rows st1 v = all_rows st v"
  proof (cases "u = v")
    case True
    with p process_version_skipped [of upstream v vdata eol today st] assms show ?thesis by simp
  next
    case False
    with process_version_other [OF p] show ?thesis by simp
  qed
  with Cons.IH [OF l] show ?case by simp
qed

lemma labelled_init: "labelled (all_rows init_state)"
  by (simp add: labelled_def init_state_def)

lemma process_version_labels:
  assumes "process_version eol today upstream st u = Inr st'" and "labelled (all_rows st)"
  shows "labelled (all_rows st')"
proof (cases "upstream u")
  case None
  with assms show ?thesis by (simp add: process_version_def)
next
  case (Some vdata)
  show ?thesis
  proof (cases "skipped eol today vdata")
    case True
    with Some assms show ?thesis by (simp add: process_version_def)
  next
    case False
    from process_version_kept [OF Some False assms(1)] obtain bars where
      "all_rows st' = (all_rows st)(u := all_rows st u @ [(u, bars)])" by blast
    with assms(2) show ?thesis by (auto simp: labelled_def)
  qed
qed

lemma first_loop_labels:
  "first_loop eol today upstream st vs = Inr st' \<Longrightarrow> labelled (all_rows st) \<Longrightarrow>
   labelled (all_rows st')"
proof (induction vs arbitrary: st)
  case Nil
  then show ?case by simp
next
  case (Cons u us)
  from Cons.prems(1) obtain st1 where
    p: "process_version eol today upstream st u = Inr st1" and
    l: "first_loop eol today upstream st1 us = Inr st'"
    by (auto split: sum.splits)
  from Cons.IH [OF l process_version_labels [OF p Cons.prems(2)]] show ?case .
qed

lemma fst_print_row: "r \<in> set (print_row l bars) \<Longrightarrow> fst r = l"
  by (auto simp: print_row_zip)

lemma second_loop_Cons: "second_loop R (v # vs) = rows_of R v @ second_loop R vs"
  by (simp add: second_loop_def rows_of_def)

lemma second_loop_Nil: "second_loop R [] = []"
  by (simp add: second_loop_def)

lemma fst_rows_of:
  assumes "labelled R" and "r \<in> set (rows_of R v)"
  shows "fst r = v"
proof -
  from assms(2) obtain l b where m: "(l, b) \<in> set (R v)" and r: "r \<in> set (print_row l b)"
    by (auto simp: rows_of_def)
  from assms(1) have "\<forall>e \<in> set (R v). fst e = v" by (simp add: labelled_def)
  with m have "l = v" by force
  with fst_print_row [OF r] show ?thesis by simp
qed

lemma fst_second_loop:
  assumes "labelled R"
  shows "r \<in> set (second_loop R vs) \<Longrightarrow> fst r \<in> set vs"
proof (induction vs)
  case Nil
  then show ?case by (simp add: second_loop_Nil)
next
  case (Cons v vs)
  from Cons.prems have "r \<in> set (rows_of R v) \<or> r \<in> set (second_loop R vs)"
    by (simp add: second_loop_Cons)
  then show ?case
  proof
    assume "r \<in> set (rows_of R v)"
    from fst_rows_of [OF assms this] show ?thesis by simp
  next
    assume "r \<in> set (second_loop R vs)"
    from Cons.IH [OF this] show ?thesis by simp
  qed
qed

lemma filter_second_loop:
  assumes "labelled R"
  shows "distinct vs \<Longrightarrow> v \<in> set vs \<Longrightarrow>
    filter (\<lambda>r. fst r = v) (second_loop R vs) = rows_of R v"
proof (induction vs)
  case Nil
  then show ?case by simp
next
  case (Cons u us)
  have own: "filter (\<lambda>r. fst r = v) (rows_of R v) = rows_of R v"
    using fst_rows_of [OF assms] by (intro filter_True) blast
  have none: "filter (\<lambda>r. fst r = v) (rows_of R u) = []" if "u \<noteq> v"
    using fst_rows_of [OF assms] that by (intro filter_False) blast
  have rest: "filter (\<lambda>r. fst r = v) (second_loop R us) = []" if "v \<notin> set us"
    using fst_second_loop [OF assms] that by (intro filter_False) blast
  show ?case
  proof (cases "u = v")
    case True
    with Cons.prems(1) have "v \<notin> set us" by simp
    from rest [OF this] own True show ?thesis by (simp add: second_loop_Cons)
  next
    case False
    with Cons.prems have "distinct us" "v \<in> set us" by simp_all
    from Cons.IH [OF this] none [OF False] show ?thesis by (simp add: second_loop_Cons)
  qed
qed

lemma sorted_const: "(\<And>x. x \<in> set xs \<Longrightarrow> f x = c) \<Longrightarrow> sorted (map f xs)"
  by (induction xs) auto

lemma sorted_second_loop:
  fixes f :: "string \<Rightarrow> 'k :: linorder"
  assumes "labelled R"
  shows "sorted (map f vs) \<Longrightarrow> sorted (map (\<lambda>r. f (fst r)) (second_loop R vs))"
proof (induction vs)
  case Nil
  then show ?case by (simp add: second_loop_Nil)
next
  case (Cons v vs)
  have 1: "sorted (map (\<lambda>r. f (fst r)) (rows_of R v))"
    using fst_rows_of [OF assms] by (intro sorted_const [of _ _ "f v"]) simp
  from Cons have 2: "sorted (map (\<lambda>r. f (fst r)) (second_loop R vs))" by simp
  have 3: "f (fst a) \<le> f (fst b)"
    if "a \<in> set (rows_of R v)" "b \<in> set (second_loop R vs)" for a b
  proof -
    from fst_rows_of [OF assms that(1)] have "fst a = v" .
    moreover from fst_second_loop [OF assms that(2)] have "fst b \<in> set vs" .
    moreover from Cons.prems have "\<forall>u \<in> set vs. f v \<le> f u" by simp
    ultimately show ?thesis by simp
  qed
  from 1 2 3 show ?case
    by (simp add: second_loop_Cons sorted_append)
qed

lemma generate_timeline_Inr:
  assumes "generate_timeline data today eol = Inr rows"
  obtains ys st where "sorted_versions (versions_of data) = Inr ys"
    and "first_loop eol today (upstream_of data) init_state ys = Inr st"
    and "rows = second_loop (all_rows st) ys"
  using assms by (auto simp: generate_timeline_def split: sum.splits)

lemma sorted_versions_distinct:
  "sorted_versions vs = Inr ys \<Longrightarrow> distinct vs \<Longrightarrow> distinct ys"
  using sorted_versions_Inr(1) [of vs ys] by simp

lemma distinct_versions_of: "distinct (versions_of data)"
  by (simp add: versions_of_def)

lemma first_loop_kept_rows:
  assumes "first_loop eol today upstream init_state vs = Inr st" and "distinct vs"
    and "v \<in> set vs"
  obtains st1 st2 where "process_version eol today upstream st1 v = Inr st2"
    and "all_rows st1 v = []" and "all_rows st v = all_rows st2 v"
proof -
  from assms(3) obtain pre post where vs: "vs = pre @ v # post" by (auto dest: split_list)
  with assms(2) have n: "v \<notin> set pre" "v \<notin> set post" by auto
  from assms(1) vs obtain st1 where
    l1: "first_loop eol today upstream init_state pre = Inr st1" and
    l2: "first_loop eol today upstream st1 (v # post) = Inr st"
    by (auto simp: first_loop_append split: sum.splits)
  from l2 obtain st2 where
    p: "process_version eol today upstream st1 v = Inr st2" and
    l3: "first_loop eol today upstream st2 post = Inr st"
    by (auto split: sum.splits)
  from first_loop_other [OF l1 n(1)] have "all_rows st1 v = []" by (simp add: init_state_def)
  moreover from first_loop_other [OF l3 n(2)] have "all_rows st v = all_rows st2 v" .
  ultimately show thesis using p that by blast
qed

text \<open>
  C4: a version whose record has an \<open>eol\<close> on or before today gets no bars and no
  rows in the pass without the retired versions; in the pass with them it is kept, and
  its rows in the output are the rows of its bars (at least four).
\<close>

theorem retired_versions_by_mode:
  "upstream_of data v = Some vdata \<and> vdata ''eol'' = Some e \<and> e \<le> today \<longrightarrow>
     (\<forall>vs st. first_loop False today (upstream_of data) init_state vs = Inr st \<longrightarrow>
        all_rows st v = []) \<and>
     (\<forall>rows. generate_timeline data today False = Inr rows \<longrightarrow>
        filter (\<lambda>r. fst r = v) rows = []) \<and>
     (\<forall>rows. generate_timeline data today True = Inr rows \<longrightarrow>
        (\<exists>bars. build_bars vdata = Inr bars \<and>
           filter (\<lambda>r. fst r = v) rows = print_row v bars \<and>
           4 \<le> length (print_row v bars)))"
proof (intro impI conjI allI)
  assume a: "upstream_of data v = Some vdata \<and> vdata ''eol'' = Some e \<and> e \<le> today"
  let ?up = "upstream_of data"
  from a have u: "?up v = Some vdata" and e: "vdata ''eol'' = Some e"
    and s: "skipped False today vdata" and k: "\<not> skipped True today vdata"
    by (simp_all add: skipped_def)
  {
    fix vs st
    assume "first_loop False today ?up init_state vs = Inr st"
    from first_loop_skipped [OF u s this] show "all_rows st v = []"
      by (simp add: init_state_def)
  }
  {
    fix rows
    assume "generate_timeline data today False = Inr rows"
    then obtain ys st where l: "first_loop False today ?up init_state ys = Inr st"
      and r: "rows = second_loop (all_rows st) ys"
      by (rule generate_timeline_Inr)
    from first_loop_skipped [OF u s l] have none: "all_rows st v = []"
      by (simp add: init_state_def)
    from first_loop_labels [OF l labelled_init] have lab: "labelled (all_rows st)" .
    have "fst x \<noteq> v" if "x \<in> set rows" for x
    proof
      assume x: "fst x = v"
      from that r obtain w where w: "w \<in> set ys" "x \<in> set (rows_of (all_rows st) w)"
        by (auto simp: second_loop_def rows_of_def)
      from fst_rows_of [OF lab w(2)] x have "w = v" by simp
      with w(2) none show False by (simp add: rows_of_def)
    qed
    then show "filter (\<lambda>r. fst r = v) rows = []" by (intro filter_False) blast
  }
  {
    fix rows
    assume "generate_timeline data today True = Inr rows"
    then obtain ys st where sv: "sorted_versions (versions_of data) = Inr ys"
      and l: "first_loop True today ?up init_state ys = Inr st"
      and r: "rows = second_loop (all_rows st) ys"
      by (rule generate_timeline_Inr)
    from sorted_versions_distinct [OF sv distinct_versions_of] have d: "distinct ys" .
    from upstream_in_versions [OF u] sorted_versions_set [OF sv] have m: "v \<in> set ys" by simp
    from first_loop_labels [OF l labelled_init] have lab: "labelled (all_rows st)" .
    from first_loop_kept_rows [OF l d m] obtain st1 st2 where
      p: "process_version True today ?up st1 v = Inr st2" and
      e1: "all_rows st1 v = []" and e2: "all_rows st v = all_rows st2 v"
      by blast
    from process_version_kept [OF u k p] obtain bars0 bars where
      b: "build_bars vdata = Inr bars0" and
      um: "update_max_eol vdata (max_eol st1) bars0 = Inr (max_eol st2, bars)"
      by blast
    from update_max_eol_bars [OF um] e have bb: "bars = bars0" by simp
    note q = process_version_sequence [of ?up v vdata True today st1 st2, OF u k p]
    from build_bars_sequence [OF b, of "max_eol st1"] e
    have bs: "bar_sequence vdata (max_eol st1) = bars0" by simp
    with q(1) e1 e2 have "all_rows st v = [(v, bars0)]" by simp
    then have "rows_of (all_rows st) v = print_row v bars0" by (simp add: rows_of_def)
    with filter_second_loop [OF lab d m] r
    have f: "filter (\<lambda>r. fst r = v) rows = print_row v bars0" by simp
    from bar_sequence_length(1) [OF q(2-7)] bs have "5 \<le> length bars0" by simp
    then have "4 \<le> length (print_row v bars0)" by (simp add: length_print_row)
    with b f show "\<exists>bars. build_bars vdata = Inr bars \<and>
           filter (\<lambda>r. fst r = v) rows = print_row v bars \<and>
           4 \<le> length (print_row v bars)"
      by blast
  }
qed

theorem retired_versions_by_mode_witness:
  "upstream_of data_a ''3.4'' = Some r34 \<and> r34 ''eol'' = Some (2019, 3, 18) \<and>
   (2019, 3, 18) \<le> ((2024, 6, 1) :: date) \<and>
   (\<exists>rows. generate_timeline data_a (2024, 6, 1) False = Inr rows \<and>
      filter (\<lambda>r. fst r = ''3.4'') rows = []) \<and>
   (\<exists>rows. generate_timeline data_a (2024, 6, 1) True = Inr rows \<and>
      filter (\<lambda>r. fst r = ''3.4'') rows =
        [(''3.4'', Alpha, (2013, 8, 3), (2013, 11, 24)), (''3.4'', Beta, (2013, 11, 24), (2014, 2, 10)),
         (''3.4'', Rc, (2014, 2, 10), (2014, 3, 16)), (''3.4'', Stable, (2014, 3, 16), (2017, 8, 9)),
         (''3.4'', Security, (2017, 8, 9), (2019, 3, 18))])"
proof -
  have a: "upstream_of data_a ''3.4'' = Some r34" "r34 ''eol'' = Some (2019, 3, 18)"
    "(2019, 3, 18) \<le> ((2024, 6, 1) :: date)"
    by (simp_all add: data_a_def upstream_of_def r34_def)
  have "\<exists>rows. generate_timeline data_a (2024, 6, 1) False = Inr rows"
    by (simp add: data_a_def example_defs sort_defs loop_defs)
  then obtain rows1 where g1: "generate_timeline data_a (2024, 6, 1) False = Inr rows1" ..
  have "\<exists>rows. generate_timeline data_a (2024, 6, 1) True = Inr rows"
    by (simp add: data_a_def example_defs sort_defs loop_defs)
  then obtain rows2 where g2: "generate_timeline data_a (2024, 6, 1) True = Inr rows2" ..
  have b: "build_bars r34 = Inr [(Alpha, (2013, 8, 3)), (Beta, (2013, 11, 24)), (Rc, (2014, 2, 10)),
      (Stable, (2014, 3, 16)), (Security, (2017, 8, 9)), (Eol, (2019, 3, 18))]"
    by (simp add: r34_def build_bars_def getitem_def)
  note t = retired_versions_by_mode [of data_a "''3.4''" r34 "(2019, 3, 18)" "(2024, 6, 1)"]
  from t a g1 have 1: "filter (\<lambda>r. fst r = ''3.4'') rows1 = []" by simp
  from t a g2 b have 2: "filter (\<lambda>r. fst r = ''3.4'') rows2 =
        [(''3.4'', Alpha, (2013, 8, 3), (2013, 11, 24)), (''3.4'', Beta, (2013, 11, 24), (2014, 2, 10)),
         (''3.4'', Rc, (2014, 2, 10), (2014, 3, 16)), (''3.4'', Stable, (2014, 3, 16), (2017, 8, 9)),
         (''3.4'', Security, (2017, 8, 9), (2019, 3, 18))]"
    by (simp add: print_row_def)
  from a g1 g2 1 2 show ?thesis by simp
qed

subsection \<open>The order of the versions\<close>

lemma sorted_versions_sorted:
  assumes "sorted_versions vs = Inr ys"
  shows "sorted (map key_of ys)" and "mset ys = mset vs"
  using sorted_versions_Inr(1) [OF assms] by simp_all

text \<open>
  C7: the versions are worked on and their rows printed in ascending order of their
  keys, the lists of the integers between the dots, not in the order of the strings:
  3.9 comes before 3.10, which comes before 3.11, while as strings 3.10 and 3.11 come
  before 3.9.
\<close>

theorem versions_in_numeric_order:
  "(sorted_versions vs = Inr ys \<longrightarrow>
      mset ys = mset vs \<and> sorted (map key_of ys) \<and>
      (\<forall>v \<in> set ys. version_key v = Inr (key_of v))) \<and>
   (generate_timeline data today eol = Inr rows \<longrightarrow>
      (\<exists>versions st. sorted_versions (versions_of data) = Inr versions \<and>
         first_loop eol today (upstream_of data) init_state versions = Inr st \<and>
         rows = second_loop (all_rows st) versions) \<and>
      sorted (map (\<lambda>r. key_of (fst r)) rows)) \<and>
   sorted_versions [''3.11'', ''3.9'', ''3.10''] = Inr [''3.9'', ''3.10'', ''3.11''] \<and>
   version_key ''3.9'' = Inr [3, 9] \<and> version_key ''3.10'' = Inr [3, 10] \<and>
   version_key ''3.11'' = Inr [3, 11] \<and>
   [3, 9] < [3, 10 :: int] \<and> [3, 10] < [3, 11 :: int] \<and>
   ''3.10'' < ''3.11'' \<and> ''3.11'' < ''3.9'' \<and>
   sort [''3.11'', ''3.9'', ''3.10''] = [''3.10'', ''3.11'', ''3.9'']"
proof (intro conjI impI)
  assume s: "sorted_versions vs = Inr ys"
  from sorted_versions_sorted [OF s] show "mset ys = mset vs" "sorted (map key_of ys)"
    by simp_all
  from sorted_versions_Inr(2) [OF s] sorted_versions_set [OF s]
  show "\<forall>v \<in> set ys. version_key v = Inr (key_of v)" by simp
next
  assume "generate_timeline data today eol = Inr rows"
  then obtain ys st where sv: "sorted_versions (versions_of data) = Inr ys"
    and l: "first_loop eol today (upstream_of data) init_state ys = Inr st"
    and r: "rows = second_loop (all_rows st) ys"
    by (rule generate_timeline_Inr)
  then show "\<exists>versions st. sorted_versions (versions_of data) = Inr versions \<and>
         first_loop eol today (upstream_of data) init_state versions = Inr st \<and>
         rows = second_loop (all_rows st) versions"
    by blast
  from first_loop_labels [OF l labelled_init] have "labelled (all_rows st)" .
  from sorted_second_loop [OF this sorted_versions_sorted(1) [OF sv]] r
  show "sorted (map (\<lambda>r. key_of (fst r)) rows)" by simp
next
  show "sorted_versions [''3.11'', ''3.9'', ''3.10''] = Inr [''3.9'', ''3.10'', ''3.11'']"
    by (simp add: sort_defs)
  show "version_key ''3.9'' = Inr [3, 9]" "version_key ''3.10'' = Inr [3, 10]"
    "version_key ''3.11'' = Inr [3, 11]"
    by (simp_all add: sort_defs)
  show "[3, 9] < [3, 10 :: int]" "[3, 10] < [3, 11 :: int]" by simp_all
  show "''3.10'' < ''3.11''" "''3.11'' < ''3.9''" by simp_all
  show "sort [''3.11'', ''3.9'', ''3.10''] = [''3.10'', ''3.11'', ''3.9'']" by simp
qed

theorem versions_in_numeric_order_witness:
  "(\<exists>rows. generate_timeline data_a (2024, 6, 1) True = Inr rows \<and>
      sorted (map (\<lambda>r. key_of (fst r)) rows)) \<and>
   sorted_versions (versions_of data_a) = Inr [''2.7'', ''3.4'', ''3.9'', ''3.10'', ''3.11''] \<and>
   sorted (map key_of [''2.7'', ''3.4'', ''3.9'', ''3.10'', ''3.11'']) \<and>
   mset [''2.7'', ''3.4'', ''3.9'', ''3.10'', ''3.11''] = mset (versions_of data_a)"
proof -
  have "\<exists>rows. generate_timeline data_a (2024, 6, 1) True = Inr rows"
    by (simp add: data_a_def example_defs sort_defs loop_defs)
  then obtain rows where g: "generate_timeline data_a (2024, 6, 1) True = Inr rows" ..
  have s: "sorted_versions (versions_of data_a) = Inr [''2.7'', ''3.4'', ''3.9'', ''3.10'', ''3.11'']"
    by (simp add: data_a_def sort_defs)
  from versions_in_numeric_order [where vs = "versions_of data_a"
      and ys = "[''2.7'', ''3.4'', ''3.9'', ''3.10'', ''3.11'']"
      and data = data_a and today = "(2024, 6, 1)" and eol = True and rows = rows] g s
  have "sorted (map (\<lambda>r. key_of (fst r)) rows)"
    "sorted (map key_of [''2.7'', ''3.4'', ''3.9'', ''3.10'', ''3.11''])"
    "mset [''2.7'', ''3.4'', ''3.9'', ''3.10'', ''3.11''] = mset (versions_of data_a)"
    by blast+
  with g s show ?thesis by blast
qed

end
